theory Spec2Isabelle
  imports Main
begin

section \<open>Offsets and ranges\<close>

text \<open>
  The source stores log offsets in JavaScript numbers. The values that occur are the
  integer offsets of the log and \<open>Number.NEGATIVE_INFINITY\<close>
  (\<open>BatchManager.MinRangeValue\<close>), which is below every integer.
\<close>

datatype jsnum = NegInf | Fin int

instantiation jsnum :: linorder
begin

definition less_eq_jsnum :: "jsnum \<Rightarrow> jsnum \<Rightarrow> bool" where
  "less_eq_jsnum a b =
     (case a of NegInf \<Rightarrow> True
      | Fin x \<Rightarrow> (case b of NegInf \<Rightarrow> False | Fin y \<Rightarrow> x \<le> y))"

definition less_jsnum :: "jsnum \<Rightarrow> jsnum \<Rightarrow> bool" where
  "less_jsnum a b =
     (case b of NegInf \<Rightarrow> False
      | Fin y \<Rightarrow> (case a of NegInf \<Rightarrow> True | Fin x \<Rightarrow> x < y))"

instance
proof
  fix a b c :: jsnum
  show "(a < b) = (a \<le> b \<and> \<not> b \<le> a)"
    by (cases a; cases b) (auto simp: less_eq_jsnum_def less_jsnum_def)
  show "a \<le> a"
    by (cases a) (auto simp: less_eq_jsnum_def)
  show "a \<le> b \<Longrightarrow> b \<le> c \<Longrightarrow> a \<le> c"
    by (cases a; cases b; cases c) (auto simp: less_eq_jsnum_def)
  show "a \<le> b \<Longrightarrow> b \<le> a \<Longrightarrow> a = b"
    by (cases a; cases b) (auto simp: less_eq_jsnum_def)
  show "a \<le> b \<or> b \<le> a"
    by (cases a; cases b) (auto simp: less_eq_jsnum_def)
qed

end

text \<open>
  Modelled from the spec: \<open>coreUtils.Range\<close> is imported from
  \<open>@prague/client-api\<close> and its source is not part of the files at hand. The spec
  (sections 3 and 4.1) gives it the fields \<open>head\<close> and \<open>tail\<close>, makes it empty
  when \<open>head\<close> is the sentinel, and lets \<open>union\<close> ignore an empty operand and
  otherwise take the smaller tail and the larger head. \<open>new Range()\<close> is the empty range.
\<close>

record Range =
  head :: jsnum
  tail :: jsnum

definition new_Range :: "jsnum \<Rightarrow> jsnum \<Rightarrow> Range" where
  "new_Range h t = \<lparr> head = h, tail = t \<rparr>"

definition empty_range :: "Range \<Rightarrow> bool" where
  "empty_range r = (head r = NegInf)"

definition union_range :: "Range \<Rightarrow> Range \<Rightarrow> Range" where
  "union_range a b =
     (if empty_range a \<and> empty_range b then new_Range NegInf NegInf
      else if empty_range a then b
      else if empty_range b then a
      else new_Range (max (head a) (head b)) (min (tail a) (tail b)))"

section \<open>Batch and OffsetBatch\<close>

text \<open>
  \<open>Batch.pendingWork\<close> is a JavaScript \<open>Map\<close> from the JSON encoding of the key to
  the array of work items. A \<open>Map\<close> iterates in insertion order, so it is an
  association list with one entry per encoded key. \<open>JSON.stringify\<close> on keys is the
  parameter \<open>enc\<close>.
\<close>

type_synonym 'v Batch = "(string \<times> 'v list) list"

fun push_work :: "string \<Rightarrow> 'v \<Rightarrow> 'v Batch \<Rightarrow> 'v Batch" where
  "push_work encoded w [] = [(encoded, [w])]"
| "push_work encoded w ((k, ws) # rest) =
     (if k = encoded then (k, ws @ [w]) # rest else (k, ws) # push_work encoded w rest)"

definition add_batch :: "('k \<Rightarrow> string) \<Rightarrow> 'k \<Rightarrow> 'v \<Rightarrow> 'v Batch \<Rightarrow> 'v Batch" where
  "add_batch enc ident w pendingWork = push_work (enc ident) w pendingWork"

record 'v OffsetBatch =
  offset :: "int option"
  batch :: "'v Batch"

definition new_OffsetBatch :: "'v OffsetBatch" where
  "new_OffsetBatch = \<lparr> offset = None, batch = [] \<rparr>"

definition clear :: "'v OffsetBatch \<Rightarrow> 'v OffsetBatch" where
  "clear ob = ob\<lparr> offset := None, batch := [] \<rparr>"

definition isEmpty :: "'v OffsetBatch \<Rightarrow> bool" where
  "isEmpty ob = (offset ob = None)"

section \<open>BatchManager\<close>

text \<open>
  The fields of the class, and \<open>outstanding\<close>: the number of promises returned by
  \<open>sendFn\<close> that have not settled yet. The promise is an object of the runtime, not a
  field of the class; the model needs it to say which completions can happen.
\<close>

record 'v BatchManager =
  range_bm :: Range
  pending :: "'v OffsetBatch"
  current :: "'v OffsetBatch"
  closed :: bool
  outstanding :: nat

definition new_BatchManager :: "'v BatchManager" where
  "new_BatchManager =
     \<lparr> range_bm = new_Range NegInf NegInf, pending = new_OffsetBatch,
       current = new_OffsetBatch, closed = False, outstanding = 0 \<rparr>"

text \<open>
  \<open>sendPending\<close> up to the call of \<open>sendFn\<close>: the result carries the batches handed
  to \<open>sendFn\<close> (none or one). The continuation registered with \<open>then\<close> runs later and
  is \<open>on_resolved\<close> in the WorkManager section.
\<close>

definition sendPending :: "'v BatchManager \<Rightarrow> 'v BatchManager \<times> 'v Batch list" where
  "sendPending bm =
     (if closed bm then (bm, [])
      else if isEmpty (pending bm) then (bm, [])
      else let bm' = bm\<lparr> current := pending bm, pending := current bm,
                          outstanding := Suc (outstanding bm) \<rparr>
           in (bm', [batch (current bm')]))"

definition requestSend :: "'v BatchManager \<Rightarrow> 'v BatchManager \<times> 'v Batch list" where
  "requestSend bm = (if \<not> isEmpty (current bm) then (bm, []) else sendPending bm)"

definition add_bm ::
  "('k \<Rightarrow> string) \<Rightarrow> 'k \<Rightarrow> 'v \<Rightarrow> int \<Rightarrow> 'v BatchManager \<Rightarrow> 'v BatchManager \<times> 'v Batch list" where
  "add_bm enc ident v off bm =
     (let wasEmpty = empty_range (range_bm bm);
          r1 = (range_bm bm)\<lparr> head := Fin off \<rparr>;
          r2 = (if wasEmpty then r1\<lparr> tail := Fin (off - 1) \<rparr> else r1);
          p = (pending bm)\<lparr> batch := add_batch enc ident v (batch (pending bm)) \<rparr>;
          p' = p\<lparr> offset := Some off \<rparr>
      in requestSend (bm\<lparr> range_bm := r2, pending := p' \<rparr>))"

definition close_bm :: "'v BatchManager \<Rightarrow> 'v BatchManager" where
  "close_bm bm = bm\<lparr> closed := True \<rparr>"

section \<open>WorkManager\<close>

datatype error = StoreError string int | AssertionError | TypeError

record 'v WorkManager =
  work :: "'v BatchManager list"
  lastOffset :: jsnum

definition new_WorkManager :: "'v WorkManager" where
  "new_WorkManager = \<lparr> work = [], lastOffset = NegInf \<rparr>"

definition createBatchedWork :: "'v WorkManager \<Rightarrow> 'v WorkManager" where
  "createBatchedWork wm = wm\<lparr> work := work wm @ [new_BatchManager] \<rparr>"

definition close_wm :: "'v WorkManager \<Rightarrow> 'v WorkManager" where
  "close_wm wm = wm\<lparr> work := map close_bm (work wm) \<rparr>"

text \<open>The loop of \<open>updateOffset\<close> over \<open>this.work\<close>, with its two accumulators.\<close>

fun scan_work :: "jsnum \<Rightarrow> Range \<Rightarrow> 'v BatchManager list \<Rightarrow> jsnum \<times> Range" where
  "scan_work maxHead r [] = (maxHead, r)"
| "scan_work maxHead r (w # ws) =
     scan_work (max maxHead (head (range_bm w))) (union_range r (range_bm w)) ws"

definition derived_offset :: "'v WorkManager \<Rightarrow> jsnum" where
  "derived_offset wm =
     (let (maxHead, r) = scan_work (lastOffset wm) (new_Range NegInf NegInf) (work wm)
      in if empty_range r then maxHead else tail r)"

text \<open>
  \<open>updateOffset\<close>: \<open>Inl\<close> is the exception of the failed \<open>assert.ok\<close>; otherwise the
  new state and the offsets emitted as \<open>offsetChanged\<close> (none or one).
\<close>

definition updateOffset :: "'v WorkManager \<Rightarrow> error + ('v WorkManager \<times> jsnum list)" where
  "updateOffset wm =
     (let off = derived_offset wm
      in if \<not> (lastOffset wm \<le> off) then Inl AssertionError
         else if off \<noteq> lastOffset wm then Inr (wm\<lparr> lastOffset := off \<rparr>, [off])
         else Inr (wm, []))"

text \<open>
  What the outside can do to a WorkManager, and what it observes. \<open>Add i\<close> is a call of
  \<open>add\<close> on the \<open>i\<close>-th BatchManager created; \<open>Resolve i\<close> and \<open>Reject i\<close> are
  the settling of the promise its \<open>sendFn\<close> returned. \<open>SendFn i b\<close> is the call of the
  \<open>i\<close>-th manager's \<open>sendFn\<close> with batch \<open>b\<close>; the other three effects are the
  events emitted: \<open>workComplete\<close> by the BatchManager, \<open>offsetChanged\<close> and
  \<open>error\<close> by the WorkManager.
\<close>

datatype ('k, 'v) event =
    Create
  | Add nat 'k 'v int
  | Resolve nat
  | Reject nat error
  | CloseBM nat
  | CloseWM

datatype 'v effect =
    SendFn nat "'v Batch"
  | WorkComplete nat int
  | OffsetChanged jsnum
  | ErrorEvent error

text \<open>A promise of \<open>sendFn\<close> settles; \<open>step\<close> calls this only when one is outstanding.\<close>

definition settle :: "'v BatchManager \<Rightarrow> 'v BatchManager" where
  "settle bm = bm\<lparr> outstanding := outstanding bm - 1 \<rparr>"

text \<open>
  The continuation of a successful send, in the order of the source: the tail is set,
  \<open>workComplete\<close> is emitted and its listener \<open>updateOffset\<close> runs at once; only
  then is \<open>current\<close> cleared and \<open>sendPending\<close> called. When the assertion in
  \<open>updateOffset\<close> throws, the rest of the continuation is skipped, \<open>doneP\<close> rejects and
  its \<open>catch\<close> emits \<open>error\<close>. A send is outstanding only while \<open>current\<close> holds
  an offset, so the branch for an unset \<open>current.offset\<close> is never taken from a state
  the program reaches (lemma \<open>reach_bm_inv\<close> below).
\<close>

definition set_tail :: "int \<Rightarrow> 'v BatchManager \<Rightarrow> 'v BatchManager" where
  "set_tail c bm = bm\<lparr> range_bm := (range_bm bm)\<lparr> tail := Fin c \<rparr> \<rparr>"

definition clear_and_continue :: "'v BatchManager \<Rightarrow> 'v BatchManager \<times> 'v Batch list" where
  "clear_and_continue bm = sendPending (bm\<lparr> current := clear (current bm) \<rparr>)"

definition on_resolved :: "nat \<Rightarrow> 'v WorkManager \<Rightarrow> 'v WorkManager \<times> 'v effect list" where
  "on_resolved i wm =
     (let bm = settle (work wm ! i)
      in case offset (current bm) of
           None \<Rightarrow> (wm, [])
         | Some c \<Rightarrow>
             (let bm1 = set_tail c bm;
                  wm1 = wm\<lparr> work := (work wm)[i := bm1] \<rparr>
              in case updateOffset wm1 of
                   Inl err \<Rightarrow> (wm1, [WorkComplete i c, ErrorEvent err])
                 | Inr (wm2, offs) \<Rightarrow>
                     (let (bm2, sends) = clear_and_continue bm1
                      in (wm2\<lparr> work := (work wm2)[i := bm2] \<rparr>,
                          WorkComplete i c # map OffsetChanged offs @ map (SendFn i) sends))))"

definition on_rejected :: "nat \<Rightarrow> error \<Rightarrow> 'v WorkManager \<Rightarrow> 'v WorkManager \<times> 'v effect list" where
  "on_rejected i err wm =
     (wm\<lparr> work := (work wm)[i := settle (work wm ! i)] \<rparr>, [ErrorEvent err])"

text \<open>
  One step. An event that names a manager that was never created, or settles a promise
  when none is outstanding, cannot happen; the model leaves the state as it is.
\<close>

fun step ::
  "('k \<Rightarrow> string) \<Rightarrow> 'v WorkManager \<Rightarrow> ('k, 'v) event \<Rightarrow> 'v WorkManager \<times> 'v effect list" where
  "step enc wm Create = (createBatchedWork wm, [])"
| "step enc wm (Add i ident v off) =
     (if i < length (work wm)
      then let (bm, sends) = add_bm enc ident v off (work wm ! i)
           in (wm\<lparr> work := (work wm)[i := bm] \<rparr>, map (SendFn i) sends)
      else (wm, []))"
| "step enc wm (Resolve i) =
     (if i < length (work wm) \<and> 0 < outstanding (work wm ! i) then on_resolved i wm
      else (wm, []))"
| "step enc wm (Reject i err) =
     (if i < length (work wm) \<and> 0 < outstanding (work wm ! i) then on_rejected i err wm
      else (wm, []))"
| "step enc wm (CloseBM i) =
     (if i < length (work wm) then (wm\<lparr> work := (work wm)[i := close_bm (work wm ! i)] \<rparr>, [])
      else (wm, []))"
| "step enc wm CloseWM = (close_wm wm, [])"

fun exec :: "('k \<Rightarrow> string) \<Rightarrow> 'v WorkManager \<Rightarrow> ('k, 'v) event list \<Rightarrow> 'v WorkManager" where
  "exec enc wm [] = wm"
| "exec enc wm (e # es) = exec enc (fst (step enc wm e)) es"

fun trace :: "('k \<Rightarrow> string) \<Rightarrow> 'v WorkManager \<Rightarrow> ('k, 'v) event list \<Rightarrow> 'v effect list" where
  "trace enc wm [] = []"
| "trace enc wm (e # es) = snd (step enc wm e) @ trace enc (fst (step enc wm e)) es"

fun emitted :: "'v effect list \<Rightarrow> jsnum list" where
  "emitted [] = []"
| "emitted (OffsetChanged off # es) = off # emitted es"
| "emitted (_ # es) = emitted es"

section \<open>ScriptoriumLambda\<close>

text \<open>
  Parsed JSON. Numbers are integers here: no claim depends on a fractional number.
  An object is the list of its properties in insertion order.
\<close>

datatype json =
    JNull
  | JBool bool
  | JNum int
  | JStr string
  | JArr "json list"
  | JObj "(string \<times> json) list"

text \<open>Reading a property gives \<open>None\<close> for JavaScript's \<open>undefined\<close>.\<close>

fun truthy :: "json option \<Rightarrow> bool" where
  "truthy None = False"
| "truthy (Some JNull) = False"
| "truthy (Some (JBool b)) = b"
| "truthy (Some (JNum n)) = (n \<noteq> 0)"
| "truthy (Some (JStr s)) = (s \<noteq> [])"
| "truthy (Some (JArr xs)) = True"
| "truthy (Some (JObj fs)) = True"

text \<open>Assignment to a property: in place when the property exists, appended otherwise.\<close>

fun set_prop :: "string \<Rightarrow> json \<Rightarrow> (string \<times> json) list \<Rightarrow> (string \<times> json) list" where
  "set_prop k v [] = [(k, v)]"
| "set_prop k v ((k', v') # rest) =
     (if k' = k then (k, v) # rest else (k', v') # set_prop k v rest)"

record IMessage =
  offset_m :: int
  value_m :: string

record IMongoTarget =
  documentId :: "json option"
  tenantId :: "json option"

text \<open>
  Modelled from the spec: \<open>core.SequencedOperationType\<close> is imported; section 6 of the
  spec gives its value.
\<close>

definition SequencedOperationType :: string where
  "SequencedOperationType = ''SequencedOperation''"

text \<open>
  The functions the lambda calls and that are not part of the files at hand:
  \<open>utils.safelyParseJSON\<close> (\<open>None\<close> is its \<open>undefined\<close> for unparsable text) and
  \<open>JSON.stringify\<close>, once on the keys of a batch and once on message contents.
\<close>

record Externals =
  safelyParseJSON :: "string \<Rightarrow> json option"
  stringify_key :: "IMongoTarget option \<Rightarrow> string"
  stringify :: "json \<Rightarrow> string"

datatype log_entry = InvalidJSON string | BatchError error

text \<open>
  What the lambda does to the outside: the two \<open>sendFn\<close>s it passes to
  \<open>createBatchedWork\<close> being called, the calls on the host context, \<open>winston.error\<close>,
  and an exception leaving \<open>handler\<close>. \<open>winston.verbose\<close> is left out.
\<close>

datatype lam_effect =
    ProcessMongoBatch "json Batch"
  | IdleSend "json Batch"
  | Checkpoint jsnum
  | ContextError error bool
  | WinstonError log_entry
  | Thrown error

text \<open>
  The listeners the constructor installs on the WorkManager, and the senders it creates:
  manager 0 is \<open>mongoManager\<close>, manager 1 is \<open>idleManager\<close>.
\<close>

fun deliver :: "json effect \<Rightarrow> lam_effect list" where
  "deliver (SendFn i b) = (if i = 0 then [ProcessMongoBatch b] else [IdleSend b])"
| "deliver (WorkComplete i c) = []"
| "deliver (OffsetChanged off) = [Checkpoint off]"
| "deliver (ErrorEvent err) = [WinstonError (BatchError err), ContextError err True]"

definition delivered_step ::
  "json WorkManager \<times> json effect list \<Rightarrow> json WorkManager \<times> lam_effect list" where
  "delivered_step r = (fst r, concat (map deliver (snd r)))"

definition new_ScriptoriumLambda :: "json WorkManager" where
  "new_ScriptoriumLambda = createBatchedWork (createBatchedWork new_WorkManager)"

text \<open>
  The payload written for a sequenced operation: \<open>traces\<close> emptied, and \<open>contents\<close>
  replaced by its JSON text when \<open>metadata\<close> is falsy. \<open>JSON.stringify\<close> of a missing
  \<open>contents\<close> is \<open>undefined\<close>; the model then leaves the property missing.
\<close>

definition normalize ::
  "Externals \<Rightarrow> (string \<times> json) list \<Rightarrow> (string \<times> json) list \<Rightarrow> json" where
  "normalize ext props operation =
     (let op1 = set_prop ''traces'' (JArr []) operation;
          op2 = (if \<not> truthy (map_of op1 ''metadata'')
                 then (case map_of op1 ''contents'' of
                         None \<Rightarrow> op1
                       | Some c \<Rightarrow> set_prop ''contents'' (JStr (stringify ext c)) op1)
                 else op1)
      in JObj (set_prop ''operation'' (JObj op2) props))"

text \<open>
  \<open>handler\<close>. Reading \<open>type\<close> of \<open>null\<close>, and assigning \<open>traces\<close> on an
  \<open>operation\<close> that is missing, \<open>null\<close> or a primitive value, throw a TypeError
  before any state changes (the compiled module is in strict mode). The declared type of
  \<open>operation\<close> is an object; an array there is outside the model and is treated like
  the primitives.
\<close>

definition handler ::
  "Externals \<Rightarrow> IMessage \<Rightarrow> json WorkManager \<Rightarrow> error + (json WorkManager \<times> lam_effect list)" where
  "handler ext message wm =
     (let messageContent = value_m message
      in case safelyParseJSON ext messageContent of
           None \<Rightarrow> Inr (wm, [WinstonError (InvalidJSON messageContent)])
         | Some parsedMessage \<Rightarrow>
             (case parsedMessage of
                JNull \<Rightarrow> Inl TypeError
              | JObj props \<Rightarrow>
                  if map_of props ''type'' = Some (JStr SequencedOperationType)
                  then (case map_of props ''operation'' of
                          Some (JObj operation) \<Rightarrow>
                            Inr (delivered_step (step (stringify_key ext) wm
                              (Add 0
                                 (Some \<lparr> documentId = map_of props ''documentId'',
                                         tenantId = map_of props ''tenantId'' \<rparr>)
                                 (normalize ext props operation)
                                 (offset_m message))))
                        | _ \<Rightarrow> Inl TypeError)
                  else Inr (delivered_step (step (stringify_key ext) wm
                              (Add 1 None JNull (offset_m message))))
              | _ \<Rightarrow> Inr (delivered_step (step (stringify_key ext) wm
                              (Add 1 None JNull (offset_m message))))))"

subsection \<open>The sender of the mongo manager\<close>

text \<open>
  The outcome of the storage calls is given by the environment: \<open>None\<close> when the
  returned promise resolves, \<open>Some err\<close> when it rejects. \<open>contentCollection\<close> is
  \<open>None\<close> when the constructor received \<open>undefined\<close>.
\<close>

record Store =
  insertMany :: "json list \<Rightarrow> error option"
  contentCollection :: "(json \<Rightarrow> json \<Rightarrow> error option) option"

fun error_name :: "error \<Rightarrow> string" where
  "error_name (StoreError n c) = n"
| "error_name AssertionError = ''AssertionError''"
| "error_name TypeError = ''TypeError''"

fun error_code :: "error \<Rightarrow> int option" where
  "error_code (StoreError n c) = Some c"
| "error_code AssertionError = None"
| "error_code TypeError = None"

text \<open>
  \<open>Promise.all\<close> resolves when every promise resolves and rejects with the error of the
  promise that rejects first in time. The model has no clock and takes the first
  rejection in the order of the array.
\<close>

fun promise_all :: "error option list \<Rightarrow> error option" where
  "promise_all [] = None"
| "promise_all (None # ps) = promise_all ps"
| "promise_all (Some err # ps) = Some err"

definition swallow_duplicate :: "error option \<Rightarrow> error option" where
  "swallow_duplicate outcome =
     (case outcome of
        None \<Rightarrow> None
      | Some err \<Rightarrow>
          if error_name err \<noteq> ''MongoError'' \<or> error_code err \<noteq> Some 11000
          then Some err else None)"

definition insertOp :: "Store \<Rightarrow> json list \<Rightarrow> error option" where
  "insertOp store messages = swallow_duplicate (insertMany store messages)"

definition get_prop :: "json \<Rightarrow> string \<Rightarrow> json option" where
  "get_prop j k = (case j of JObj fs \<Rightarrow> map_of fs k | _ \<Rightarrow> None)"

text \<open>
  \<open>message.operation.metadata && message.operation.metadata.split\<close>. A non-empty string
  is truthy and has the method \<open>split\<close> of its prototype.
\<close>

definition wants_split :: "json \<Rightarrow> bool" where
  "wants_split message =
     (case get_prop message ''operation'' of
        None \<Rightarrow> False
      | Some operation \<Rightarrow>
          (case get_prop operation ''metadata'' of
             Some (JStr s) \<Rightarrow> s \<noteq> []
           | Some metadata \<Rightarrow> truthy (Some metadata) \<and> truthy (get_prop metadata ''split'')
           | None \<Rightarrow> False))"

definition object_of :: "(string \<times> json option) list \<Rightarrow> json" where
  "object_of ps = JObj (concat (map (\<lambda>(k, v). case v of None \<Rightarrow> [] | Some j \<Rightarrow> [(k, j)]) ps))"

definition update_filter :: "json \<Rightarrow> json" where
  "update_filter message =
     (let operation = (case get_prop message ''operation'' of None \<Rightarrow> JNull | Some j \<Rightarrow> j)
      in object_of
           [(''clientId'', get_prop operation ''clientId''),
            (''documentId'', get_prop message ''documentId''),
            (''op.clientSequenceNumber'', get_prop operation ''clientSequenceNumber''),
            (''tenantId'', get_prop message ''tenantId'')])"

definition update_set :: "json \<Rightarrow> json" where
  "update_set message =
     (let operation = (case get_prop message ''operation'' of None \<Rightarrow> JNull | Some j \<Rightarrow> j)
      in object_of [(''sequenceNumber'', get_prop operation ''sequenceNumber'')])"

definition updateSequenceNumber :: "Store \<Rightarrow> json list \<Rightarrow> error option" where
  "updateSequenceNumber store messages =
     (case contentCollection store of
        None \<Rightarrow> None
      | Some update \<Rightarrow>
          let updateP = map (\<lambda>message. swallow_duplicate
                                (update (update_filter message) (update_set message)))
                            (filter wants_split messages)
          in if 0 < length updateP then promise_all updateP else None)"

definition processMongoCore :: "Store \<Rightarrow> json list \<Rightarrow> error option" where
  "processMongoCore store messages =
     promise_all [insertOp store messages, updateSequenceNumber store messages]"

definition processMongoBatch :: "Store \<Rightarrow> json Batch \<Rightarrow> error option" where
  "processMongoBatch store b =
     promise_all (map (\<lambda>(key, work). processMongoCore store work) b)"

text \<open>
  The events of the lambda: a message from the log, the promise of
  \<open>processMongoBatch\<close> settling under the given storage outcomes, the promise of the
  idle sender (which always resolves) settling, and \<open>close\<close>.
\<close>

datatype lam_event =
    Handler IMessage
  | MongoSettled Store
  | IdleSettled
  | Close

fun lam_step ::
  "Externals \<Rightarrow> json WorkManager \<Rightarrow> lam_event \<Rightarrow> json WorkManager \<times> lam_effect list" where
  "lam_step ext wm (Handler message) =
     (case handler ext message wm of
        Inl err \<Rightarrow> (wm, [Thrown err])
      | Inr r \<Rightarrow> r)"
| "lam_step ext wm (MongoSettled store) =
     (if 0 < length (work wm) \<and> 0 < outstanding (work wm ! 0)
      then (case processMongoBatch store (batch (current (work wm ! 0))) of
              None \<Rightarrow> delivered_step (step (stringify_key ext) wm (Resolve 0))
            | Some err \<Rightarrow> delivered_step (step (stringify_key ext) wm (Reject 0 err)))
      else (wm, []))"
| "lam_step ext wm IdleSettled = delivered_step (step (stringify_key ext) wm (Resolve 1))"
| "lam_step ext wm Close = delivered_step (step (stringify_key ext) wm CloseWM)"

fun lam_exec :: "Externals \<Rightarrow> json WorkManager \<Rightarrow> lam_event list \<Rightarrow> json WorkManager" where
  "lam_exec ext wm [] = wm"
| "lam_exec ext wm (e # es) = lam_exec ext (fst (lam_step ext wm e)) es"

fun lam_trace :: "Externals \<Rightarrow> json WorkManager \<Rightarrow> lam_event list \<Rightarrow> lam_effect list" where
  "lam_trace ext wm [] = []"
| "lam_trace ext wm (e # es) =
     snd (lam_step ext wm e) @ lam_trace ext (fst (lam_step ext wm e)) es"

fun checkpoints :: "lam_effect list \<Rightarrow> jsnum list" where
  "checkpoints [] = []"
| "checkpoints (Checkpoint off # es) = off # checkpoints es"
| "checkpoints (_ # es) = checkpoints es"

section \<open>Histories\<close>

text \<open>
  What a run has done so far, read off the events. \<open>added\<close> lists the payloads and
  offsets passed to \<open>add\<close> of manager \<open>i\<close>; \<open>delivered\<close> lists the payloads of the
  batches of manager \<open>i\<close> whose \<open>sendFn\<close> promise has resolved. The program never
  inspects a payload, so a run whose payloads are pairwise different identifies every
  call of \<open>add\<close> by its payload.
\<close>

definition payloads :: "'v OffsetBatch \<Rightarrow> 'v list" where
  "payloads ob = concat (map snd (batch ob))"

fun added_by :: "'v WorkManager \<Rightarrow> ('k, 'v) event \<Rightarrow> nat \<Rightarrow> ('v \<times> int) list" where
  "added_by wm (Add j ident v off) i = (if j = i \<and> i < length (work wm) then [(v, off)] else [])"
| "added_by wm _ i = []"


fun added ::
  "('k \<Rightarrow> string) \<Rightarrow> 'v WorkManager \<Rightarrow> ('k, 'v) event list \<Rightarrow> nat \<Rightarrow> ('v \<times> int) list" where
  "added enc wm [] i = []"
| "added enc wm (e # es) i = added_by wm e i @ added enc (fst (step enc wm e)) es i"


fun sends_of :: "nat \<Rightarrow> 'v effect list \<Rightarrow> 'v Batch list" where
  "sends_of i [] = []"
| "sends_of i (SendFn j b # es) = (if j = i then b # sends_of i es else sends_of i es)"
| "sends_of i (_ # es) = sends_of i es"

fun errors_of :: "'v effect list \<Rightarrow> error list" where
  "errors_of [] = []"
| "errors_of (ErrorEvent err # es) = err # errors_of es"
| "errors_of (_ # es) = errors_of es"



text \<open>
  \<open>burst k vs n\<close>: the values \<open>vs\<close> added to manager 0 under the key \<open>k\<close> at the
  offsets \<open>n\<close>, \<open>n + 1\<close>, and so on.
\<close>

fun burst :: "'k \<Rightarrow> 'v list \<Rightarrow> int \<Rightarrow> ('k, 'v) event list" where
  "burst k [] n = []"
| "burst k (v # vs) n = Add 0 k v n # burst k vs (n + 1)"

section \<open>The words of the spec\<close>

text \<open>
  Definitions that follow the spec rather than the code, to compare the code with.
  A duplicate-key error is the error with name \<open>MongoError\<close> and code 11000;
  \<open>group_errors\<close> lists the errors the storage reports for one group of messages, from
  \<open>insertMany\<close> and from the \<open>update\<close> of every message with split metadata.
\<close>

definition duplicate_key :: "error \<Rightarrow> bool" where
  "duplicate_key err \<longleftrightarrow> error_name err = ''MongoError'' \<and> error_code err = Some 11000"

definition update_errors :: "Store \<Rightarrow> json list \<Rightarrow> error list" where
  "update_errors store messages =
     (case contentCollection store of
        None \<Rightarrow> []
      | Some update \<Rightarrow>
          concat (map (\<lambda>message. case update (update_filter message) (update_set message) of
                                   None \<Rightarrow> [] | Some err \<Rightarrow> [err])
                      (filter wants_split messages)))"

definition group_errors :: "Store \<Rightarrow> json list \<Rightarrow> error list" where
  "group_errors store messages =
     (case insertMany store messages of None \<Rightarrow> [] | Some err \<Rightarrow> [err])
     @ update_errors store messages"







section \<open>Invariants\<close>

text \<open>
  Predicates on a BatchManager used in the proofs below. \<open>resolved_bm\<close> is the
  manager after the continuation of a successful send: whole (\<open>ok\<close>), or cut short
  by the exception of the listener. \<open>bm_inv\<close> holds in every state a run reaches;
  \<open>busy_ok\<close> holds until the first \<open>error\<close> event; \<open>halted\<close> is the state of a
  manager after a failed send; \<open>bm_ord\<close> and \<open>ledger_ok\<close> hold when the offsets added
  to the manager never decrease, respectively strictly increase; \<open>settled_ok\<close> is the
  invariant of the WorkManager about states with nothing left to send.
\<close>

definition resolved_bm :: "bool \<Rightarrow> 'v BatchManager \<Rightarrow> 'v BatchManager" where
  "resolved_bm ok bm =
     (case offset (current bm) of
        None \<Rightarrow> bm
      | Some c \<Rightarrow> if ok then fst (clear_and_continue (set_tail c (settle bm)))
                  else set_tail c (settle bm))"

definition bm_inv :: "'v BatchManager \<Rightarrow> bool" where
  "bm_inv bm \<longleftrightarrow>
     outstanding bm \<le> 1 \<and>
     (0 < outstanding bm \<longrightarrow> offset (current bm) \<noteq> None) \<and>
     (offset (current bm) = None \<longrightarrow> batch (current bm) = []) \<and>
     (case offset (pending bm) of
        Some p \<Rightarrow> head (range_bm bm) = Fin p
      | None \<Rightarrow> batch (pending bm) = [] \<and>
          (case offset (current bm) of
             Some c \<Rightarrow> head (range_bm bm) = Fin c
           | None \<Rightarrow> tail (range_bm bm) = head (range_bm bm)))"

definition busy_ok :: "'v BatchManager \<Rightarrow> bool" where
  "busy_ok bm \<longleftrightarrow> (offset (current bm) \<noteq> None \<longrightarrow> 0 < outstanding bm)"

definition halted :: "'v BatchManager \<Rightarrow> bool" where
  "halted bm \<longleftrightarrow> offset (current bm) \<noteq> None \<and> outstanding bm = 0"

definition bm_ord :: "'v BatchManager \<Rightarrow> bool" where
  "bm_ord bm \<longleftrightarrow>
     (\<not> empty_range (range_bm bm) \<longrightarrow> tail (range_bm bm) \<le> head (range_bm bm)) \<and>
     (case offset (current bm) of
        Some c \<Rightarrow> tail (range_bm bm) \<le> Fin c \<and> Fin c \<le> head (range_bm bm)
      | None \<Rightarrow> True)"

definition range_le :: "'v BatchManager \<Rightarrow> 'v BatchManager \<Rightarrow> bool" where
  "range_le a b \<longleftrightarrow>
     head (range_bm a) \<le> head (range_bm b) \<and> tail (range_bm a) \<le> tail (range_bm b)"

definition ledger_ok :: "'v BatchManager \<Rightarrow> ('v \<times> int) list \<Rightarrow> 'v list \<Rightarrow> bool" where
  "ledger_ok bm A D \<longleftrightarrow>
     (\<forall>(v, off) \<in> set A.
        v \<in> set D \<or>
        (tail (range_bm bm) < Fin off \<and>
         (v \<in> set (payloads (current bm)) \<or>
          (v \<in> set (payloads (pending bm)) \<and>
           (case offset (current bm) of None \<Rightarrow> True | Some c \<Rightarrow> c < off)))))"


section \<open>Properties: order on offsets\<close>

lemma jsnum_le_simps [simp]:
  "NegInf \<le> x" "Fin a \<le> Fin b \<longleftrightarrow> a \<le> b" "Fin a \<le> NegInf \<longleftrightarrow> False"
  by (auto simp: less_eq_jsnum_def split: jsnum.splits)

lemma jsnum_less_simps [simp]:
  "x < NegInf \<longleftrightarrow> False" "Fin a < Fin b \<longleftrightarrow> a < b" "NegInf < Fin a"
  by (auto simp: less_jsnum_def split: jsnum.splits)

section \<open>Properties: runs\<close>

lemma emitted_append [simp]: "emitted (xs @ ys) = emitted xs @ emitted ys"
  by (induction xs rule: emitted.induct) auto

lemma emitted_SendFn [simp]: "emitted (map (SendFn i) bs) = []"
  by (induction bs) auto

lemma emitted_OffsetChanged [simp]: "emitted (map OffsetChanged offs) = offs"
  by (induction offs) auto

lemma exec_append: "exec enc wm (xs @ ys) = exec enc (exec enc wm xs) ys"
  by (induction xs arbitrary: wm) auto

lemma trace_append:
  "trace enc wm (xs @ ys) = trace enc wm xs @ trace enc (exec enc wm xs) ys"
  by (induction xs arbitrary: wm) auto

lemma lam_exec_append: "lam_exec ext wm (xs @ ys) = lam_exec ext (lam_exec ext wm xs) ys"
  by (induction xs arbitrary: wm) auto

lemma lam_trace_append:
  "lam_trace ext wm (xs @ ys) = lam_trace ext wm xs @ lam_trace ext (lam_exec ext wm xs) ys"
  by (induction xs arbitrary: wm) auto

lemma checkpoints_append [simp]: "checkpoints (xs @ ys) = checkpoints xs @ checkpoints ys"
  by (induction xs rule: checkpoints.induct) auto

lemma checkpoints_deliver [simp]: "checkpoints (concat (map deliver effs)) = emitted effs"
proof (induction effs)
  case Nil
  show ?case by simp
next
  case (Cons x xs)
  then show ?case by (cases x) auto
qed

lemma delivered_step_simps [simp]:
  "fst (delivered_step r) = fst r"
  "checkpoints (snd (delivered_step r)) = emitted (snd r)"
  by (simp_all add: delivered_step_def)

section \<open>Properties: the checkpoint only moves forward\<close>

lemma updateOffset_cases:
  assumes "updateOffset wm = Inr (wm', offs)"
  shows "work wm' = work wm \<and>
         (offs = [] \<and> wm' = wm \<or> offs = [lastOffset wm'] \<and> lastOffset wm < lastOffset wm')"
  using assms by (auto simp: updateOffset_def Let_def split: if_splits)

lemma step_lastOffset:
  "(emitted (snd (step enc wm e)) = [] \<and> lastOffset (fst (step enc wm e)) = lastOffset wm) \<or>
   (emitted (snd (step enc wm e)) = [lastOffset (fst (step enc wm e))] \<and>
    lastOffset wm < lastOffset (fst (step enc wm e)))"
proof (cases e)
  case (Resolve i)
  show ?thesis
    apply (simp add: Resolve on_resolved_def Let_def split: option.splits sum.splits prod.splits)
    apply (auto dest!: updateOffset_cases simp: clear_and_continue_def sendPending_def Let_def
                split: if_splits)
    done
qed (auto simp: createBatchedWork_def close_wm_def on_rejected_def Let_def split: prod.splits)

lemma lam_step_lastOffset:
  "(checkpoints (snd (lam_step ext wm e)) = [] \<and>
    lastOffset (fst (lam_step ext wm e)) = lastOffset wm) \<or>
   (checkpoints (snd (lam_step ext wm e)) = [lastOffset (fst (lam_step ext wm e))] \<and>
    lastOffset wm < lastOffset (fst (lam_step ext wm e)))"
proof (cases e)
  case (Handler m)
  note s1 = step_lastOffset [of "stringify_key ext" wm "Add 1 None JNull (offset_m m)"]
  have s0: "\<And>k v. (emitted (snd (step (stringify_key ext) wm (Add 0 k v (offset_m m)))) = [] \<and>
      lastOffset (fst (step (stringify_key ext) wm (Add 0 k v (offset_m m)))) = lastOffset wm) \<or>
     (emitted (snd (step (stringify_key ext) wm (Add 0 k v (offset_m m)))) =
        [lastOffset (fst (step (stringify_key ext) wm (Add 0 k v (offset_m m))))] \<and>
      lastOffset wm < lastOffset (fst (step (stringify_key ext) wm (Add 0 k v (offset_m m)))))"
    by (rule step_lastOffset)
  show ?thesis
    unfolding Handler lam_step.simps handler_def Let_def
    using s0 s1
    by (simp split: option.splits json.splits sum.splits)
next
  case (MongoSettled store)
  show ?thesis
    unfolding MongoSettled lam_step.simps
    using step_lastOffset [of "stringify_key ext" wm "Resolve 0"]
          step_lastOffset [of "stringify_key ext" wm "Reject 0 err" for err]
    by (simp del: step.simps split: option.splits)
next
  case IdleSettled
  show ?thesis
    unfolding IdleSettled lam_step.simps
    using step_lastOffset [of "stringify_key ext" wm "Resolve 1"] by simp
next
  case Close
  show ?thesis
    unfolding Close lam_step.simps
    using step_lastOffset [of "stringify_key ext" wm CloseWM] by simp
qed

lemma trace_emitted:
  "sorted_wrt (<) (emitted (trace enc wm evs)) \<and>
   (\<forall>off \<in> set (emitted (trace enc wm evs)). lastOffset wm < off) \<and>
   lastOffset wm \<le> lastOffset (exec enc wm evs)"
proof (induction evs arbitrary: wm)
  case Nil
  show ?case by simp
next
  case (Cons e es)
  let ?wm1 = "fst (step enc wm e)"
  note ih = Cons.IH [of ?wm1]
  from step_lastOffset [of enc wm e] show ?case
  proof
    assume "emitted (snd (step enc wm e)) = [] \<and> lastOffset ?wm1 = lastOffset wm"
    with ih show ?thesis by simp
  next
    assume "emitted (snd (step enc wm e)) = [lastOffset ?wm1] \<and> lastOffset wm < lastOffset ?wm1"
    with ih show ?thesis by (auto simp: sorted_wrt_append)
  qed
qed

lemma lam_trace_checkpoints:
  "sorted_wrt (<) (checkpoints (lam_trace ext wm evs)) \<and>
   (\<forall>off \<in> set (checkpoints (lam_trace ext wm evs)). lastOffset wm < off) \<and>
   lastOffset wm \<le> lastOffset (lam_exec ext wm evs)"
proof (induction evs arbitrary: wm)
  case Nil
  show ?case by simp
next
  case (Cons e es)
  let ?wm1 = "fst (lam_step ext wm e)"
  note ih = Cons.IH [of ?wm1]
  from lam_step_lastOffset [of ext wm e] show ?case
  proof
    assume "checkpoints (snd (lam_step ext wm e)) = [] \<and> lastOffset ?wm1 = lastOffset wm"
    with ih show ?thesis by simp
  next
    assume "checkpoints (snd (lam_step ext wm e)) = [lastOffset ?wm1] \<and>
            lastOffset wm < lastOffset ?wm1"
    with ih show ?thesis by (auto simp: sorted_wrt_append)
  qed
qed

text \<open>
  C2. In every run of a WorkManager the offsets emitted as \<open>offsetChanged\<close> are strictly
  increasing, and so are the offsets the lambda passes to \<open>context.checkpoint\<close>;
  \<open>lastOffset\<close> never decreases from one point of a run to a later one.
\<close>

theorem checkpoint_monotonic:
  "sorted_wrt (<) (emitted (trace enc new_WorkManager evs)) \<and>
   sorted_wrt (<) (checkpoints (lam_trace ext new_ScriptoriumLambda levs)) \<and>
   lastOffset (exec enc new_WorkManager evs) \<le> lastOffset (exec enc new_WorkManager (evs @ later)) \<and>
   lastOffset (lam_exec ext new_ScriptoriumLambda levs)
     \<le> lastOffset (lam_exec ext new_ScriptoriumLambda (levs @ llater))"
  using trace_emitted [of enc new_WorkManager evs]
        trace_emitted [of enc "exec enc new_WorkManager evs" later]
        lam_trace_checkpoints [of ext new_ScriptoriumLambda levs]
        lam_trace_checkpoints [of ext "lam_exec ext new_ScriptoriumLambda levs" llater]
  by (simp add: exec_append lam_exec_append)

section \<open>Properties: one manager under a step\<close>

lemma step_length: "length (work wm) \<le> length (work (fst (step enc wm e)))"
proof (cases e)
  case (Resolve j)
  show ?thesis
    by (auto simp: Resolve on_resolved_def Let_def updateOffset_def
             split: option.splits sum.splits prod.splits if_splits)
qed (auto simp: createBatchedWork_def close_wm_def on_rejected_def split: prod.splits)

lemma step_nth_Create:
  "i < length (work wm) \<Longrightarrow> work (fst (step enc wm Create)) ! i = work wm ! i"
  by (simp add: createBatchedWork_def nth_append)

lemma step_new_manager:
  assumes "\<not> i < length (work wm)" "i < length (work (fst (step enc wm e)))"
  shows "e = Create \<and> work (fst (step enc wm e)) ! i = new_BatchManager"
proof (cases e)
  case (Resolve j)
  with assms show ?thesis
    by (auto simp: Resolve on_resolved_def Let_def updateOffset_def
             split: option.splits sum.splits prod.splits if_splits)
qed (use assms in \<open>auto simp: createBatchedWork_def close_wm_def on_rejected_def nth_append
       split: prod.splits if_splits\<close>)

lemma step_nth_Add:
  "i < length (work wm) \<Longrightarrow>
   work (fst (step enc wm (Add j k v off))) ! i =
     (if j = i then fst (add_bm enc k v off (work wm ! i)) else work wm ! i)"
  by (auto simp: nth_list_update split: prod.splits)

lemma step_nth_Resolve:
  assumes "i < length (work wm)"
  shows "\<exists>ok. work (fst (step enc wm (Resolve j))) ! i =
     (if j = i \<and> 0 < outstanding (work wm ! i) then resolved_bm ok (work wm ! i)
      else work wm ! i)"
proof (cases "j < length (work wm) \<and> 0 < outstanding (work wm ! j)")
  case False
  with assms show ?thesis by auto
next
  case True
  show ?thesis
  proof (cases "offset (current (work wm ! j))")
    case None
    with True assms show ?thesis
      by (auto simp: on_resolved_def resolved_bm_def settle_def)
  next
    case (Some c)
    let ?wm1 = "wm\<lparr>work := (work wm)[j := set_tail c (settle (work wm ! j))]\<rparr>"
    show ?thesis
    proof (cases "updateOffset ?wm1")
      case (Inl err)
      with True Some assms show ?thesis
        by (auto simp: on_resolved_def resolved_bm_def settle_def Let_def nth_list_update
                 intro!: exI [of _ False])
    next
      case (Inr r)
      obtain wm2 offs where r: "r = (wm2, offs)" by (cases r)
      from Inr r have w: "work wm2 = work ?wm1" by (auto dest: updateOffset_cases)
      with True Some assms Inr r show ?thesis
        by (auto simp: on_resolved_def resolved_bm_def settle_def Let_def nth_list_update
                 split: prod.splits intro!: exI [of _ True])
    qed
  qed
qed

lemma step_nth_Reject:
  "i < length (work wm) \<Longrightarrow>
   work (fst (step enc wm (Reject j err))) ! i =
     (if j = i \<and> 0 < outstanding (work wm ! i) then settle (work wm ! i) else work wm ! i)"
  by (auto simp: on_rejected_def nth_list_update)

lemma step_nth_CloseBM:
  "i < length (work wm) \<Longrightarrow>
   work (fst (step enc wm (CloseBM j))) ! i =
     (if j = i then close_bm (work wm ! i) else work wm ! i)"
  by (auto simp: nth_list_update)

lemma step_nth_CloseWM:
  "i < length (work wm) \<Longrightarrow> work (fst (step enc wm CloseWM)) ! i = close_bm (work wm ! i)"
  by (simp add: close_wm_def)

lemma step_preserves:
  assumes add: "\<And>bm k v off. P bm \<Longrightarrow> G off bm \<Longrightarrow> P (fst (add_bm enc k v off bm))"
    and res: "\<And>bm ok. P bm \<Longrightarrow> 0 < outstanding bm \<Longrightarrow> P (resolved_bm ok bm)"
    and rej: "\<And>bm. P bm \<Longrightarrow> 0 < outstanding bm \<Longrightarrow> P (settle bm)"
    and clo: "\<And>bm. P bm \<Longrightarrow> P (close_bm bm)"
    and P: "P (work wm ! i)" and i: "i < length (work wm)"
    and G: "\<And>k v off. e = Add i k v off \<Longrightarrow> G off (work wm ! i)"
  shows "P (work (fst (step enc wm e)) ! i)"
proof (cases e)
  case Create
  with P i show ?thesis by (simp only: step_nth_Create)
next
  case (Add j k v off)
  with P i G add show ?thesis by (simp only: step_nth_Add split: if_splits) auto
next
  case (Resolve j)
  from step_nth_Resolve [OF i, of enc j] obtain ok where
    "work (fst (step enc wm (Resolve j))) ! i =
     (if j = i \<and> 0 < outstanding (work wm ! i) then resolved_bm ok (work wm ! i)
      else work wm ! i)" ..
  with P res Resolve show ?thesis by (auto split: if_splits)
next
  case (Reject j err)
  with P i rej show ?thesis by (simp only: step_nth_Reject split: if_splits) auto
next
  case (CloseBM j)
  with P i clo show ?thesis by (simp only: step_nth_CloseBM split: if_splits) auto
next
  case CloseWM
  with P i clo show ?thesis by (simp only: step_nth_CloseWM)
qed

lemma bm_inv_new: "bm_inv new_BatchManager"
  by (simp add: bm_inv_def new_BatchManager_def new_OffsetBatch_def new_Range_def)

lemma bm_inv_settle: "bm_inv bm \<Longrightarrow> 0 < outstanding bm \<Longrightarrow> bm_inv (settle bm)"
  unfolding bm_inv_def settle_def
  by (simp split: option.splits)

lemma bm_inv_close: "bm_inv bm \<Longrightarrow> bm_inv (close_bm bm)"
  unfolding bm_inv_def close_bm_def
  by (simp split: option.splits)

lemma bm_inv_add: "bm_inv bm \<Longrightarrow> bm_inv (fst (add_bm enc k v off bm))"
  unfolding bm_inv_def add_bm_def requestSend_def sendPending_def Let_def
                 empty_range_def isEmpty_def add_batch_def
  by (cases "offset (current bm)"; cases "closed bm"; simp split: option.splits)

lemma bm_inv_resolved: "bm_inv bm \<Longrightarrow> 0 < outstanding bm \<Longrightarrow> bm_inv (resolved_bm ok bm)"
  unfolding bm_inv_def resolved_bm_def clear_and_continue_def set_tail_def settle_def
                 sendPending_def clear_def Let_def isEmpty_def
  by (cases "offset (current bm)"; cases "offset (pending bm)"; cases "closed bm"; cases ok; simp)

lemma step_bm_inv:
  assumes "\<forall>i < length (work wm). bm_inv (work wm ! i)"
  shows "\<forall>i < length (work (fst (step enc wm e))). bm_inv (work (fst (step enc wm e)) ! i)"
proof (intro allI impI)
  fix i assume i: "i < length (work (fst (step enc wm e)))"
  show "bm_inv (work (fst (step enc wm e)) ! i)"
  proof (cases "i < length (work wm)")
    case True
    with assms have "bm_inv (work wm ! i)" by simp
    then show ?thesis
      by (rule step_preserves [where P = bm_inv and G = "\<lambda>_ _. True", rotated 4])
         (auto intro: bm_inv_add bm_inv_resolved bm_inv_settle bm_inv_close True)
  next
    case False
    from step_new_manager [OF False i]
    have "work (fst (step enc wm e)) ! i = new_BatchManager" ..
    then show ?thesis by (simp only: bm_inv_new)
  qed
qed

lemma exec_snoc: "exec enc wm (evs @ [e]) = fst (step enc (exec enc wm evs) e)"
  by (simp add: exec_append)

lemma trace_snoc:
  "trace enc wm (evs @ [e]) = trace enc wm evs @ snd (step enc (exec enc wm evs) e)"
  by (simp add: trace_append)

lemma reach_bm_inv:
  "\<forall>i < length (work (exec enc new_WorkManager evs)).
     bm_inv (work (exec enc new_WorkManager evs) ! i)"
proof (induction evs rule: rev_induct)
  case Nil
  show ?case by (simp add: new_WorkManager_def)
next
  case (snoc e evs)
  then show ?case unfolding exec_snoc by (rule step_bm_inv)
qed

lemma step_Resolve_cases [case_names noop fail ok]:
  obtains
    (noop) "step enc wm (Resolve j) = (wm, [])"
      "\<not> (j < length (work wm) \<and> 0 < outstanding (work wm ! j) \<and>
          offset (current (work wm ! j)) \<noteq> None)"
  | (fail) c where "j < length (work wm)" "0 < outstanding (work wm ! j)"
      "offset (current (work wm ! j)) = Some c"
      "step enc wm (Resolve j) =
         (wm\<lparr>work := (work wm)[j := set_tail c (settle (work wm ! j))]\<rparr>,
          [WorkComplete j c, ErrorEvent AssertionError])"
      "\<not> lastOffset wm \<le>
         derived_offset (wm\<lparr>work := (work wm)[j := set_tail c (settle (work wm ! j))]\<rparr>)"
  | (ok) c where "j < length (work wm)" "0 < outstanding (work wm ! j)"
      "offset (current (work wm ! j)) = Some c"
      "lastOffset wm \<le>
         derived_offset (wm\<lparr>work := (work wm)[j := set_tail c (settle (work wm ! j))]\<rparr>)"
      "step enc wm (Resolve j) =
         (\<lparr>work = (work wm)[j := fst (clear_and_continue (set_tail c (settle (work wm ! j))))],
           lastOffset =
             derived_offset (wm\<lparr>work := (work wm)[j := set_tail c (settle (work wm ! j))]\<rparr>)\<rparr>,
          WorkComplete j c #
          map OffsetChanged
            (if derived_offset (wm\<lparr>work := (work wm)[j := set_tail c (settle (work wm ! j))]\<rparr>)
                \<noteq> lastOffset wm
             then [derived_offset
                     (wm\<lparr>work := (work wm)[j := set_tail c (settle (work wm ! j))]\<rparr>)]
             else []) @
          map (SendFn j) (snd (clear_and_continue (set_tail c (settle (work wm ! j))))))"
proof (cases "j < length (work wm) \<and> 0 < outstanding (work wm ! j)")
  case False
  then show ?thesis by (intro noop) auto
next
  case True
  show ?thesis
  proof (cases "offset (current (work wm ! j))")
    case None
    with True show ?thesis by (intro noop) (auto simp: on_resolved_def settle_def)
  next
    case (Some c)
    let ?wm1 = "wm\<lparr>work := (work wm)[j := set_tail c (settle (work wm ! j))]\<rparr>"
    show ?thesis
    proof (cases "lastOffset wm \<le> derived_offset ?wm1")
      case False
      with True Some show ?thesis
        by (intro fail [of c]) (auto simp: on_resolved_def settle_def Let_def updateOffset_def)
    next
      case le: True
      from le True Some show ?thesis
        by (intro ok [of c])
           (auto simp: on_resolved_def settle_def Let_def updateOffset_def split: prod.splits)
    qed
  qed
qed

section \<open>Properties: one send in flight\<close>

lemma errors_of_append [simp]: "errors_of (xs @ ys) = errors_of xs @ errors_of ys"
  by (induction xs rule: errors_of.induct) auto

lemma errors_of_SendFn [simp]: "errors_of (map (SendFn i) bs) = []"
  by (induction bs) auto

lemma errors_of_OffsetChanged [simp]: "errors_of (map OffsetChanged offs) = []"
  by (induction offs) auto

lemma busy_ok_new: "busy_ok new_BatchManager"
  by (simp add: busy_ok_def new_BatchManager_def new_OffsetBatch_def)

lemma busy_ok_add: "busy_ok bm \<Longrightarrow> busy_ok (fst (add_bm enc k v off bm))"
  unfolding busy_ok_def add_bm_def requestSend_def sendPending_def Let_def isEmpty_def
  by (cases "offset (current bm)"; cases "closed bm"; simp)

lemma busy_ok_close: "busy_ok bm \<Longrightarrow> busy_ok (close_bm bm)"
  by (simp add: busy_ok_def close_bm_def)

lemma busy_ok_continue: "busy_ok (fst (clear_and_continue bm))"
  unfolding busy_ok_def clear_and_continue_def sendPending_def Let_def isEmpty_def clear_def
  by (cases "offset (pending bm)"; cases "closed bm"; simp)

lemma step_busy_ok:
  assumes inv: "\<forall>i < length (work wm). busy_ok (work wm ! i)"
    and noerr: "errors_of (snd (step enc wm e)) = []"
  shows "\<forall>i < length (work (fst (step enc wm e))). busy_ok (work (fst (step enc wm e)) ! i)"
proof (intro allI impI)
  fix i assume i: "i < length (work (fst (step enc wm e)))"
  show "busy_ok (work (fst (step enc wm e)) ! i)"
  proof (cases "i < length (work wm)")
    case False
    from step_new_manager [OF False i]
    have "work (fst (step enc wm e)) ! i = new_BatchManager" ..
    then show ?thesis by (simp only: busy_ok_new)
  next
    case True
    with inv have P: "busy_ok (work wm ! i)" by simp
    show ?thesis
    proof (cases e)
      case Create
      with P True show ?thesis by (simp only: step_nth_Create)
    next
      case (Add j k v off)
      with P True show ?thesis by (simp add: step_nth_Add busy_ok_add del: step.simps)
    next
      case (Resolve j)
      show ?thesis
      proof (cases rule: step_Resolve_cases [of enc wm j])
        case noop
        with P Resolve show ?thesis by simp
      next
        case (fail c)
        with noerr Resolve show ?thesis by simp
      next
        case (ok c)
        with P True Resolve show ?thesis
          by (cases "j = i") (simp_all add: busy_ok_continue)
      qed
    next
      case (Reject j err)
      with noerr P True show ?thesis by (auto simp: on_rejected_def split: if_splits)
    next
      case (CloseBM j)
      with P True show ?thesis by (simp add: step_nth_CloseBM busy_ok_close del: step.simps)
    next
      case CloseWM
      with P True show ?thesis by (simp only: step_nth_CloseWM busy_ok_close)
    qed
  qed
qed

lemma reach_busy_ok:
  "errors_of (trace enc new_WorkManager evs) = [] \<Longrightarrow>
   \<forall>i < length (work (exec enc new_WorkManager evs)).
     busy_ok (work (exec enc new_WorkManager evs) ! i)"
proof (induction evs rule: rev_induct)
  case Nil
  show ?case by (simp add: new_WorkManager_def)
next
  case (snoc e evs)
  from snoc.prems have a: "errors_of (trace enc new_WorkManager evs) = []"
    and b: "errors_of (snd (step enc (exec enc new_WorkManager evs) e)) = []"
    by (simp_all add: trace_snoc)
  from snoc.IH [OF a] b show ?case unfolding exec_snoc by (rule step_busy_ok)
qed

text \<open>
  C5 (as amended). In every state a run reaches, every BatchManager has at most one send
  outstanding; a send outstanding means \<open>current\<close> is non-empty; \<open>requestSend\<close> starts
  no send while \<open>current\<close> is non-empty; and as long as no \<open>error\<close> event has been
  emitted, a non-empty \<open>current\<close> means a send is outstanding. After a failed send
  \<open>current\<close> stays non-empty with no send outstanding, so the two are not equivalent
  in every state.
\<close>

theorem one_send_in_flight:
  assumes "i < length (work (exec enc new_WorkManager evs))"
  shows "outstanding (work (exec enc new_WorkManager evs) ! i) \<le> 1 \<and>
         (0 < outstanding (work (exec enc new_WorkManager evs) ! i) \<longrightarrow>
            \<not> isEmpty (current (work (exec enc new_WorkManager evs) ! i))) \<and>
         (errors_of (trace enc new_WorkManager evs) = [] \<longrightarrow>
            \<not> isEmpty (current (work (exec enc new_WorkManager evs) ! i)) \<longrightarrow>
            0 < outstanding (work (exec enc new_WorkManager evs) ! i)) \<and>
         (\<not> isEmpty (current (work (exec enc new_WorkManager evs) ! i)) \<longrightarrow>
            snd (requestSend (work (exec enc new_WorkManager evs) ! i)) = [])"
proof -
  let ?bm = "work (exec enc new_WorkManager evs) ! i"
  from reach_bm_inv assms have "bm_inv ?bm" by blast
  then have 1: "outstanding ?bm \<le> 1" and 2: "0 < outstanding ?bm \<longrightarrow> \<not> isEmpty (current ?bm)"
    by (simp_all add: bm_inv_def isEmpty_def)
  have 3: "errors_of (trace enc new_WorkManager evs) = [] \<longrightarrow>
            \<not> isEmpty (current ?bm) \<longrightarrow> 0 < outstanding ?bm"
  proof
    assume "errors_of (trace enc new_WorkManager evs) = []"
    from reach_busy_ok [OF this] assms have "busy_ok ?bm" by blast
    then show "\<not> isEmpty (current ?bm) \<longrightarrow> 0 < outstanding ?bm"
      by (simp add: busy_ok_def isEmpty_def)
  qed
  have 4: "\<not> isEmpty (current ?bm) \<longrightarrow> snd (requestSend ?bm) = []"
    by (simp add: requestSend_def)
  from 1 2 3 4 show ?thesis by blast
qed

theorem one_send_in_flight_witness:
  "0 < length (work (exec (\<lambda>k. k) new_WorkManager [Create, Add 0 ''k'' ''v'' 1])) \<and>
   outstanding (work (exec (\<lambda>k. k) new_WorkManager [Create, Add 0 ''k'' ''v'' 1]) ! 0) = 1 \<and>
   errors_of (trace (\<lambda>k. k) new_WorkManager [Create, Add 0 ''k'' ''v'' 1]) = [] \<and>
   \<not> isEmpty (current (work (exec (\<lambda>k. k) new_WorkManager [Create, Add 0 ''k'' ''v'' 1]) ! 0)) \<and>
   snd (requestSend (work (exec (\<lambda>k. k) new_WorkManager [Create, Add 0 ''k'' ''v'' 1]) ! 0)) = []"
proof -
  let ?evs = "[Create, Add 0 ''k'' ''v'' (1::int)]"
  have l: "0 < length (work (exec (\<lambda>k. k) new_WorkManager ?evs))"
    by code_simp
  have e: "errors_of (trace (\<lambda>k. k) new_WorkManager ?evs) = []"
    by code_simp
  have c: "\<not> isEmpty (current (work (exec (\<lambda>k. k) new_WorkManager ?evs) ! 0))"
    by code_simp
  note t = one_send_in_flight [OF l]
  from t e c have "0 < outstanding (work (exec (\<lambda>k. k) new_WorkManager ?evs) ! 0)" by blast
  moreover from t have "outstanding (work (exec (\<lambda>k. k) new_WorkManager ?evs) ! 0) \<le> 1" by blast
  ultimately have o: "outstanding (work (exec (\<lambda>k. k) new_WorkManager ?evs) ! 0) = 1" by linarith
  from t c have r: "snd (requestSend (work (exec (\<lambda>k. k) new_WorkManager ?evs) ! 0)) = []"
    by blast
  from l o e c r show ?thesis by blast
qed

theorem one_send_in_flight_counterexample:
  "\<not> isEmpty (current (work (exec (\<lambda>k. k) new_WorkManager
        [Create, Add 0 ''k'' ''v'' 1, Reject 0 (StoreError ''MongoNetworkError'' 0)]) ! 0)) \<and>
   outstanding (work (exec (\<lambda>k. k) new_WorkManager
        [Create, Add 0 ''k'' ''v'' 1, Reject 0 (StoreError ''MongoNetworkError'' 0)]) ! 0) = 0"
  by code_simp

section \<open>Properties: a failed send halts its manager\<close>

lemma union_range_left:
  "\<not> empty_range a \<Longrightarrow>
   \<not> empty_range (union_range a b) \<and> tail (union_range a b) \<le> tail a"
  by (cases "head a"; cases "head b")
     (simp_all add: union_range_def empty_range_def new_Range_def max_def)

lemma union_range_right:
  "\<not> empty_range b \<Longrightarrow>
   \<not> empty_range (union_range a b) \<and> tail (union_range a b) \<le> tail b"
  by (cases "head a"; cases "head b")
     (simp_all add: union_range_def empty_range_def new_Range_def max_def)

lemma scan_work_acc:
  "\<not> empty_range r \<Longrightarrow>
   \<not> empty_range (snd (scan_work m r ws)) \<and> tail (snd (scan_work m r ws)) \<le> tail r"
proof (induction ws arbitrary: m r)
  case Nil
  then show ?case by simp
next
  case (Cons w ws)
  from union_range_left [OF Cons.prems, of "range_bm w"]
  have a: "\<not> empty_range (union_range r (range_bm w))"
    and b: "tail (union_range r (range_bm w)) \<le> tail r" by simp_all
  from Cons.IH [OF a, of "max m (head (range_bm w))"] b show ?case by auto
qed

lemma scan_work_member:
  "w \<in> set ws \<Longrightarrow> \<not> empty_range (range_bm w) \<Longrightarrow>
   \<not> empty_range (snd (scan_work m r ws)) \<and>
   tail (snd (scan_work m r ws)) \<le> tail (range_bm w)"
proof (induction ws arbitrary: m r)
  case Nil
  then show ?case by simp
next
  case (Cons x ws)
  show ?case
  proof (cases "w = x")
    case True
    from union_range_right [of "range_bm x" r] Cons.prems True
    have a: "\<not> empty_range (union_range r (range_bm x))"
      and b: "tail (union_range r (range_bm x)) \<le> tail (range_bm w)" by simp_all
    from scan_work_acc [OF a, of "max m (head (range_bm x))" ws] b show ?thesis by auto
  next
    case False
    with Cons.prems have "w \<in> set ws" by simp
    from Cons.IH [OF this Cons.prems(2)] show ?thesis by simp
  qed
qed

lemma derived_offset_le_tail:
  assumes "i < length (work wm)" "\<not> empty_range (range_bm (work wm ! i))"
  shows "derived_offset wm \<le> tail (range_bm (work wm ! i))"
proof -
  from assms(1) have "work wm ! i \<in> set (work wm)" by simp
  from scan_work_member [OF this assms(2), of "lastOffset wm" "new_Range NegInf NegInf"]
  show ?thesis by (simp add: derived_offset_def split_beta)
qed

lemma bm_inv_busy_nonempty:
  "bm_inv bm \<Longrightarrow> offset (current bm) \<noteq> None \<Longrightarrow> \<not> empty_range (range_bm bm)"
  by (auto simp: bm_inv_def empty_range_def split: option.splits)

lemma halted_add:
  assumes "halted bm" "bm_inv bm"
  shows "halted (fst (add_bm enc k v off bm)) \<and> snd (add_bm enc k v off bm) = [] \<and>
         current (fst (add_bm enc k v off bm)) = current bm \<and>
         tail (range_bm (fst (add_bm enc k v off bm))) = tail (range_bm bm)"
  using assms bm_inv_busy_nonempty [of bm]
  by (simp add: halted_def add_bm_def requestSend_def isEmpty_def Let_def)

lemma halted_close:
  "halted bm \<Longrightarrow> halted (close_bm bm) \<and> current (close_bm bm) = current bm \<and>
     tail (range_bm (close_bm bm)) = tail (range_bm bm)"
  by (simp add: halted_def close_bm_def)

lemma step_halted:
  assumes i: "i < length (work wm)" and h: "halted (work wm ! i)"
    and inv: "bm_inv (work wm ! i)"
  shows "halted (work (fst (step enc wm e)) ! i) \<and>
         current (work (fst (step enc wm e)) ! i) = current (work wm ! i) \<and>
         tail (range_bm (work (fst (step enc wm e)) ! i)) = tail (range_bm (work wm ! i)) \<and>
         sends_of i (snd (step enc wm e)) = [] \<and>
         (\<forall>off \<in> set (emitted (snd (step enc wm e))). off \<le> tail (range_bm (work wm ! i)))"
proof (cases e)
  case Create
  with i h show ?thesis by (simp add: step_nth_Create del: step.simps) simp
next
  case (Add j k v off)
  show ?thesis
  proof (cases "j = i")
    case True
    with Add i halted_add [OF h inv, of enc k v off] show ?thesis
      by (simp add: step_nth_Add del: step.simps) (simp add: split_beta)
  next
    case False
    have "sends_of i (map (SendFn j) bs) = []" for bs :: "'a Batch list"
      using False by (induction bs) auto
    with False Add i h show ?thesis
      by (simp add: step_nth_Add del: step.simps) (simp add: split_beta)
  qed
next
  case (Resolve j)
  show ?thesis
  proof (cases rule: step_Resolve_cases [of enc wm j])
    case noop
    with h Resolve show ?thesis by simp
  next
    case (fail c)
    with h have "j \<noteq> i" by (auto simp: halted_def)
    with fail h i Resolve show ?thesis by simp
  next
    case (ok c)
    with h have ji: "j \<noteq> i" by (auto simp: halted_def)
    let ?wm1 = "wm\<lparr>work := (work wm)[j := set_tail c (settle (work wm ! j))]\<rparr>"
    from ji i have n: "work ?wm1 ! i = work wm ! i" and l: "i < length (work ?wm1)" by simp_all
    from bm_inv_busy_nonempty [OF inv] h have "\<not> empty_range (range_bm (work wm ! i))"
      by (simp add: halted_def)
    with derived_offset_le_tail [OF l] n
    have d: "derived_offset ?wm1 \<le> tail (range_bm (work wm ! i))" by simp
    have "sends_of i (map (SendFn j) bs) = []" for bs :: "'a Batch list"
      using ji by (induction bs) auto
    moreover have "sends_of i (map OffsetChanged offs) = []" for offs
      by (induction offs) auto
    moreover have "sends_of i (xs @ ys) = sends_of i xs @ sends_of i ys" for xs ys :: "'a effect list"
      by (induction i xs rule: sends_of.induct) auto
    ultimately show ?thesis using ok ji h i Resolve d by simp
  qed
next
  case (Reject j err)
  with i h show ?thesis
    by (simp add: step_nth_Reject del: step.simps) (auto simp: halted_def on_rejected_def)
next
  case (CloseBM j)
  with i h halted_close [OF h] show ?thesis
    by (simp add: step_nth_CloseBM del: step.simps) simp
next
  case CloseWM
  with i h halted_close [OF h] show ?thesis
    by (simp add: step_nth_CloseWM del: step.simps) (simp add: close_wm_def)
qed

lemma sends_of_append [simp]: "sends_of i (xs @ ys) = sends_of i xs @ sends_of i ys"
  by (induction i xs rule: sends_of.induct) auto

lemma sends_of_SendFn [simp]: "sends_of i (map (SendFn j) bs) = (if j = i then bs else [])"
  by (induction bs) auto

lemma sends_of_OffsetChanged [simp]: "sends_of i (map OffsetChanged offs) = []"
  by (induction offs) auto

lemma run_halted:
  assumes "i < length (work wm)" "halted (work wm ! i)"
    "\<forall>j < length (work wm). bm_inv (work wm ! j)"
  shows "i < length (work (exec enc wm evs)) \<and>
         halted (work (exec enc wm evs) ! i) \<and>
         current (work (exec enc wm evs) ! i) = current (work wm ! i) \<and>
         tail (range_bm (work (exec enc wm evs) ! i)) = tail (range_bm (work wm ! i)) \<and>
         sends_of i (trace enc wm evs) = [] \<and>
         (\<forall>off \<in> set (emitted (trace enc wm evs)). off \<le> tail (range_bm (work wm ! i)))"
  using assms
proof (induction evs arbitrary: wm)
  case Nil
  then show ?case by simp
next
  case (Cons e es)
  let ?wm1 = "fst (step enc wm e)"
  from Cons.prems have inv: "bm_inv (work wm ! i)" by simp
  note s = step_halted [OF Cons.prems(1,2) inv, of enc e]
  from Cons.prems(1) step_length [of wm enc e] have l: "i < length (work ?wm1)" by simp
  from s have h: "halted (work ?wm1 ! i)" by simp
  from step_bm_inv [OF Cons.prems(3)] have a: "\<forall>j < length (work ?wm1). bm_inv (work ?wm1 ! j)" .
  from Cons.IH [OF l h a] s show ?case by auto
qed

text \<open>
  C9. When the promise of a send of manager \<open>i\<close> rejects, then whatever happens later:
  \<open>current\<close> of that manager keeps its content and stays non-empty, \<open>requestSend\<close>
  starts nothing, \<open>sendFn\<close> of that manager is never called again, its \<open>range.tail\<close>
  stays where it was, and no offset emitted as \<open>offsetChanged\<close> exceeds that tail.
\<close>

theorem failure_halts_pipeline:
  assumes "i < length (work (exec enc new_WorkManager pre))"
    and "0 < outstanding (work (exec enc new_WorkManager pre) ! i)"
  shows "current (work (exec enc new_WorkManager (pre @ Reject i err # evs)) ! i)
           = current (work (exec enc new_WorkManager pre) ! i) \<and>
         \<not> isEmpty (current (work (exec enc new_WorkManager (pre @ Reject i err # evs)) ! i)) \<and>
         snd (requestSend (work (exec enc new_WorkManager (pre @ Reject i err # evs)) ! i)) = [] \<and>
         sends_of i (trace enc (exec enc new_WorkManager (pre @ [Reject i err])) evs) = [] \<and>
         tail (range_bm (work (exec enc new_WorkManager (pre @ Reject i err # evs)) ! i))
           = tail (range_bm (work (exec enc new_WorkManager pre) ! i)) \<and>
         (\<forall>off \<in> set (emitted (trace enc (exec enc new_WorkManager (pre @ [Reject i err])) evs)).
            off \<le> tail (range_bm (work (exec enc new_WorkManager pre) ! i)))"
proof -
  let ?wm = "exec enc new_WorkManager pre"
  let ?wm1 = "exec enc new_WorkManager (pre @ [Reject i err])"
  have e1: "exec enc new_WorkManager (pre @ Reject i err # evs) = exec enc ?wm1 evs"
    by (simp add: exec_append)
  from reach_bm_inv assms(1) have inv: "bm_inv (work ?wm ! i)" by blast
  with assms(2) have cur: "offset (current (work ?wm ! i)) \<noteq> None"
    by (simp add: bm_inv_def)
  have w1: "work ?wm1 ! i = settle (work ?wm ! i)" and l1: "i < length (work ?wm1)"
    using assms by (simp_all add: exec_append on_rejected_def)
  from inv assms(2) cur have h: "halted (work ?wm1 ! i)"
    unfolding w1 by (simp add: halted_def settle_def bm_inv_def)
  note r = run_halted [OF l1 h reach_bm_inv, of enc evs]
  from r have "halted (work (exec enc ?wm1 evs) ! i)" by simp
  then have ne: "\<not> isEmpty (current (work (exec enc ?wm1 evs) ! i))"
    by (simp add: halted_def isEmpty_def)
  from r ne show ?thesis unfolding e1
    by (simp add: w1 settle_def requestSend_def)
qed

theorem failure_halts_pipeline_witness:
  "1 < length (work (exec (\<lambda>k. k) new_WorkManager
       [Create, Create, Add 0 ''a'' ''v1'' 1, Add 1 ''b'' ''v2'' 2])) \<and>
   0 < outstanding (work (exec (\<lambda>k. k) new_WorkManager
       [Create, Create, Add 0 ''a'' ''v1'' 1, Add 1 ''b'' ''v2'' 2]) ! 0) \<and>
   sends_of 0 (trace (\<lambda>k. k) (exec (\<lambda>k. k) new_WorkManager
       ([Create, Create, Add 0 ''a'' ''v1'' 1, Add 1 ''b'' ''v2'' 2]
         @ [Reject 0 (StoreError ''MongoNetworkError'' 0)]))
       [Add 0 ''a'' ''v3'' 3, Resolve 1, Resolve 0]) = [] \<and>
   emitted (trace (\<lambda>k. k) (exec (\<lambda>k. k) new_WorkManager
       ([Create, Create, Add 0 ''a'' ''v1'' 1, Add 1 ''b'' ''v2'' 2]
         @ [Reject 0 (StoreError ''MongoNetworkError'' 0)]))
       [Add 0 ''a'' ''v3'' 3, Resolve 1, Resolve 0]) = [Fin 0] \<and>
   tail (range_bm (work (exec (\<lambda>k. k) new_WorkManager
       ([Create, Create, Add 0 ''a'' ''v1'' 1, Add 1 ''b'' ''v2'' 2]
         @ Reject 0 (StoreError ''MongoNetworkError'' 0)
         # [Add 0 ''a'' ''v3'' 3, Resolve 1, Resolve 0])) ! 0)) = Fin 0"
proof -
  let ?pre = "[Create, Create, Add 0 ''a'' ''v1'' (1::int), Add 1 ''b'' ''v2'' 2]"
  let ?err = "StoreError ''MongoNetworkError'' 0"
  let ?evs = "[Add 0 ''a'' ''v3'' (3::int), Resolve 1, Resolve 0]"
  have l: "0 < length (work (exec (\<lambda>k. k) new_WorkManager ?pre))"
    by code_simp
  have o: "0 < outstanding (work (exec (\<lambda>k. k) new_WorkManager ?pre) ! 0)"
    by code_simp
  have t: "tail (range_bm (work (exec (\<lambda>k. k) new_WorkManager ?pre) ! 0)) = Fin 0"
    by code_simp
  have m: "emitted (trace (\<lambda>k. k) (exec (\<lambda>k. k) new_WorkManager (?pre @ [Reject 0 ?err])) ?evs)
             = [Fin 0]"
    by code_simp
  have l2: "1 < length (work (exec (\<lambda>k. k) new_WorkManager ?pre))"
    by code_simp
  note h = failure_halts_pipeline [OF l o, of ?err ?evs]
  from h have s: "sends_of 0 (trace (\<lambda>k. k)
       (exec (\<lambda>k. k) new_WorkManager (?pre @ [Reject 0 ?err])) ?evs) = []" by blast
  from h have "tail (range_bm (work (exec (\<lambda>k. k) new_WorkManager
          (?pre @ Reject 0 ?err # ?evs)) ! 0))
        = tail (range_bm (work (exec (\<lambda>k. k) new_WorkManager ?pre) ! 0))" by blast
  from this t have t': "tail (range_bm (work (exec (\<lambda>k. k) new_WorkManager
          (?pre @ Reject 0 ?err # ?evs)) ! 0)) = Fin 0" by (rule trans)
  from l2 o s m t' show ?thesis by blast
qed

section \<open>Properties: close\<close>

lemma payloads_push_work: "set (concat (map snd (push_work e w b))) = insert w (set (concat (map snd b)))"
  by (induction e w b rule: push_work.induct) auto

lemma payloads_push: "batch ob = push_work e w b \<Longrightarrow> w \<in> set (payloads ob)"
  unfolding payloads_def using payloads_push_work [of e w b] by (simp del: set_concat)

lemma closed_add:
  assumes "closed bm"
  shows "snd (add_bm enc k v off bm) = [] \<and>
         closed (fst (add_bm enc k v off bm)) \<and>
         head (range_bm (fst (add_bm enc k v off bm))) = Fin off \<and>
         offset (pending (fst (add_bm enc k v off bm))) = Some off \<and>
         batch (pending (fst (add_bm enc k v off bm))) = add_batch enc k v (batch (pending bm)) \<and>
         current (fst (add_bm enc k v off bm)) = current bm"
  using assms by (simp add: add_bm_def requestSend_def sendPending_def Let_def)

lemma closed_resolved: "closed bm \<Longrightarrow> closed (resolved_bm ok bm)"
  by (simp add: resolved_bm_def clear_and_continue_def sendPending_def set_tail_def settle_def
           split: option.splits)

lemma closed_continue: "closed bm \<Longrightarrow> snd (clear_and_continue bm) = []"
  by (simp add: clear_and_continue_def sendPending_def)

lemma step_closed:
  assumes i: "i < length (work wm)" and c: "closed (work wm ! i)"
  shows "closed (work (fst (step enc wm e)) ! i) \<and> sends_of i (snd (step enc wm e)) = []"
proof
  from c show "closed (work (fst (step enc wm e)) ! i)"
    by (rule step_preserves [where P = closed and G = "\<lambda>_ _. True", rotated 4])
       (auto simp: closed_add closed_resolved settle_def close_bm_def i)
  show "sends_of i (snd (step enc wm e)) = []"
  proof (cases e)
    case (Add j k v off)
    with closed_add [OF c, of enc k v off] show ?thesis by (simp add: split_beta)
  next
    case (Resolve j)
    show ?thesis
    proof (cases rule: step_Resolve_cases [of enc wm j])
      case noop
      with Resolve show ?thesis by simp
    next
      case (fail c)
      with Resolve show ?thesis by simp
    next
      case (ok c')
      have "j = i \<Longrightarrow> snd (clear_and_continue (set_tail c' (settle (work wm ! i)))) = []"
        using c by (intro closed_continue) (simp add: set_tail_def settle_def)
      with ok Resolve show ?thesis by simp
    qed
  qed (simp_all add: on_rejected_def)
qed

lemma run_closed:
  assumes "i < length (work wm)" "closed (work wm ! i)"
  shows "i < length (work (exec enc wm evs)) \<and> closed (work (exec enc wm evs) ! i) \<and>
         sends_of i (trace enc wm evs) = []"
  using assms
proof (induction evs arbitrary: wm)
  case Nil
  then show ?case by simp
next
  case (Cons e es)
  let ?wm1 = "fst (step enc wm e)"
  note s = step_closed [OF Cons.prems, of enc e]
  from Cons.prems(1) step_length [of wm enc e] have l: "i < length (work ?wm1)" by simp
  from s have c: "closed (work ?wm1 ! i)" by simp
  from Cons.IH [OF l c] s show ?case by simp
qed

lemma step_Resolve_in_flight:
  assumes "i < length (work wm)" "0 < outstanding (work wm ! i)"
    "offset (current (work wm ! i)) = Some c"
  shows "tail (range_bm (work (fst (step enc wm (Resolve i))) ! i)) = Fin c \<and>
         WorkComplete i c \<in> set (snd (step enc wm (Resolve i)))"
proof (cases rule: step_Resolve_cases [of enc wm i])
  case noop
  with assms show ?thesis by simp
next
  case (fail c')
  with assms show ?thesis by (simp add: set_tail_def)
next
  case (ok c')
  with assms show ?thesis
    by (simp add: set_tail_def clear_and_continue_def sendPending_def Let_def)
qed

text \<open>
  C6. After \<open>close\<close> of manager \<open>i\<close> (or of the WorkManager, which closes every
  manager), whatever happens later: \<open>sendFn\<close> of that manager is never called again; a
  call of \<open>add\<close> starts no send but still sets \<open>range.head\<close>, \<open>pending.offset\<close>
  and puts the value into \<open>pending\<close>; and a send that is still outstanding completes as
  usual: it sets \<open>range.tail\<close> to the offset of \<open>current\<close> and emits
  \<open>workComplete\<close>. The witness shows \<open>offsetChanged\<close> fired by such a completion.
\<close>

theorem close_semantics:
  assumes "i < length (work (exec enc new_WorkManager pre))"
    and "cl = CloseBM i \<or> cl = CloseWM"
  shows "sends_of i (trace enc (exec enc new_WorkManager (pre @ [cl])) evs) = [] \<and>
         snd (step enc (exec enc new_WorkManager (pre @ cl # evs)) (Add i k v off)) = [] \<and>
         head (range_bm (work (exec enc new_WorkManager (pre @ cl # evs @ [Add i k v off])) ! i))
           = Fin off \<and>
         offset (pending (work (exec enc new_WorkManager (pre @ cl # evs @ [Add i k v off])) ! i))
           = Some off \<and>
         v \<in> set (payloads (pending
                 (work (exec enc new_WorkManager (pre @ cl # evs @ [Add i k v off])) ! i))) \<and>
         (0 < outstanding (work (exec enc new_WorkManager (pre @ cl # evs)) ! i) \<longrightarrow>
            (\<exists>c. offset (current (work (exec enc new_WorkManager (pre @ cl # evs)) ! i)) = Some c \<and>
                 tail (range_bm (work (exec enc new_WorkManager (pre @ cl # evs @ [Resolve i])) ! i))
                   = Fin c \<and>
                 WorkComplete i c
                   \<in> set (snd (step enc (exec enc new_WorkManager (pre @ cl # evs)) (Resolve i)))))"
proof -
  let ?wm = "exec enc new_WorkManager pre"
  let ?wm1 = "exec enc new_WorkManager (pre @ [cl])"
  let ?wm2 = "exec enc new_WorkManager (pre @ cl # evs)"
  have e2: "?wm2 = exec enc ?wm1 evs" by (simp add: exec_append)
  have e3: "exec enc new_WorkManager (pre @ cl # evs @ [e]) = fst (step enc ?wm2 e)" for e
    by (simp add: exec_append)
  from assms have l1: "i < length (work ?wm1)" and c1: "closed (work ?wm1 ! i)"
    by (auto simp: exec_append close_wm_def close_bm_def)
  note r = run_closed [OF l1 c1, of enc evs]
  from r have l2: "i < length (work ?wm2)" and c2: "closed (work ?wm2 ! i)"
    and s: "sends_of i (trace enc ?wm1 evs) = []" unfolding e2 by simp_all
  note a = closed_add [OF c2, of enc k v off]
  from a l2 have a1: "snd (step enc ?wm2 (Add i k v off)) = []" by (simp add: split_beta)
  have n: "work (fst (step enc ?wm2 (Add i k v off))) ! i = fst (add_bm enc k v off (work ?wm2 ! i))"
    using l2 by (simp add: step_nth_Add del: step.simps)
  from a have a2: "head (range_bm (work (fst (step enc ?wm2 (Add i k v off))) ! i)) = Fin off"
    and a3: "offset (pending (work (fst (step enc ?wm2 (Add i k v off))) ! i)) = Some off"
    unfolding n by simp_all
  from a have a4: "v \<in> set (payloads (pending (work (fst (step enc ?wm2 (Add i k v off))) ! i)))"
    unfolding n add_batch_def by (intro payloads_push [of _ "enc k" v]) blast
  have f: "0 < outstanding (work ?wm2 ! i) \<longrightarrow>
            (\<exists>c. offset (current (work ?wm2 ! i)) = Some c \<and>
                 tail (range_bm (work (fst (step enc ?wm2 (Resolve i))) ! i)) = Fin c \<and>
                 WorkComplete i c \<in> set (snd (step enc ?wm2 (Resolve i))))"
  proof
    assume o: "0 < outstanding (work ?wm2 ! i)"
    from reach_bm_inv l2 have "bm_inv (work ?wm2 ! i)" by blast
    with o obtain c where c: "offset (current (work ?wm2 ! i)) = Some c"
      by (auto simp: bm_inv_def)
    from step_Resolve_in_flight [OF l2 o c, of enc] c
    show "\<exists>c. offset (current (work ?wm2 ! i)) = Some c \<and>
                 tail (range_bm (work (fst (step enc ?wm2 (Resolve i))) ! i)) = Fin c \<and>
                 WorkComplete i c \<in> set (snd (step enc ?wm2 (Resolve i)))" by blast
  qed
  from s a1 a2 a3 a4 f show ?thesis unfolding e3 by blast
qed

theorem close_semantics_witness:
  "0 < length (work (exec (\<lambda>k. k) new_WorkManager [Create, Create, Add 0 ''k'' ''a'' 1])) \<and>
   sends_of 0 (trace (\<lambda>k. k)
      (exec (\<lambda>k. k) new_WorkManager ([Create, Create, Add 0 ''k'' ''a'' 1] @ [CloseWM]))
      [Add 0 ''k'' ''b'' 2, Resolve 0, Add 0 ''k'' ''c'' 3]) = [] \<and>
   snd (step (\<lambda>k. k) (exec (\<lambda>k. k) new_WorkManager
      ([Create, Create, Add 0 ''k'' ''a'' 1] @ CloseWM # [])) (Add 0 ''k'' ''b'' 2)) = [] \<and>
   head (range_bm (work (exec (\<lambda>k. k) new_WorkManager
      ([Create, Create, Add 0 ''k'' ''a'' 1] @ CloseWM # [] @ [Add 0 ''k'' ''b'' 2])) ! 0)) = Fin 2 \<and>
   0 < outstanding (work (exec (\<lambda>k. k) new_WorkManager
      ([Create, Create, Add 0 ''k'' ''a'' 1] @ CloseWM # [])) ! 0) \<and>
   tail (range_bm (work (exec (\<lambda>k. k) new_WorkManager
      ([Create, Create, Add 0 ''k'' ''a'' 1] @ CloseWM # [] @ [Resolve 0])) ! 0)) = Fin 1 \<and>
   snd (step (\<lambda>k. k) (exec (\<lambda>k. k) new_WorkManager
      ([Create, Create, Add 0 ''k'' ''a'' 1] @ CloseWM # [])) (Resolve 0))
     = [WorkComplete 0 1, OffsetChanged (Fin 1)]"
proof -
  let ?pre = "[Create, Create, Add 0 ''k'' ''a'' (1::int)]"
  let ?cl = "CloseWM :: (string, string) event"
  have l: "0 < length (work (exec (\<lambda>k. k) new_WorkManager ?pre))"
    by code_simp
  have c: "?cl = CloseBM 0 \<or> ?cl = CloseWM" by simp
  have o: "0 < outstanding (work (exec (\<lambda>k. k) new_WorkManager (?pre @ ?cl # [])) ! 0)"
    by code_simp
  have t: "tail (range_bm (work (exec (\<lambda>k. k) new_WorkManager
      (?pre @ ?cl # [] @ [Resolve 0])) ! 0)) = Fin 1"
    by code_simp
  have w: "snd (step (\<lambda>k. k) (exec (\<lambda>k. k) new_WorkManager (?pre @ ?cl # [])) (Resolve 0))
     = [WorkComplete 0 1, OffsetChanged (Fin 1)]"
    by code_simp
  from close_semantics [OF l c, of "[Add 0 ''k'' ''b'' 2, Resolve 0, Add 0 ''k'' ''c'' 3]"]
  have s: "sends_of 0 (trace (\<lambda>k. k) (exec (\<lambda>k. k) new_WorkManager (?pre @ [?cl]))
      [Add 0 ''k'' ''b'' 2, Resolve 0, Add 0 ''k'' ''c'' 3]) = []" by blast
  from close_semantics [OF l c, of "[]" "''k''" "''b''" 2]
  have a: "snd (step (\<lambda>k. k) (exec (\<lambda>k. k) new_WorkManager (?pre @ ?cl # []))
             (Add 0 ''k'' ''b'' 2)) = []"
    and h: "head (range_bm (work (exec (\<lambda>k. k) new_WorkManager
      (?pre @ ?cl # [] @ [Add 0 ''k'' ''b'' 2])) ! 0)) = Fin 2" by blast+
  from l s a h o t w show ?thesis by blast
qed

section \<open>Properties: the range of a manager\<close>

lemma step_relates:
  assumes add: "\<And>bm k v off. P bm \<Longrightarrow> G off bm \<Longrightarrow> R bm (fst (add_bm enc k v off bm))"
    and res: "\<And>bm ok. P bm \<Longrightarrow> 0 < outstanding bm \<Longrightarrow> R bm (resolved_bm ok bm)"
    and rej: "\<And>bm. P bm \<Longrightarrow> 0 < outstanding bm \<Longrightarrow> R bm (settle bm)"
    and clo: "\<And>bm. P bm \<Longrightarrow> R bm (close_bm bm)"
    and same: "\<And>bm. P bm \<Longrightarrow> R bm bm"
    and P: "P (work wm ! i)" and i: "i < length (work wm)"
    and G: "\<And>k v off. e = Add i k v off \<Longrightarrow> G off (work wm ! i)"
  shows "R (work wm ! i) (work (fst (step enc wm e)) ! i)"
proof (cases e)
  case Create
  with P i same show ?thesis by (simp only: step_nth_Create)
next
  case (Add j k v off)
  with P i G add same show ?thesis by (simp add: step_nth_Add del: step.simps)
next
  case (Resolve j)
  from step_nth_Resolve [OF i, of enc j] obtain ok where
    "work (fst (step enc wm (Resolve j))) ! i =
     (if j = i \<and> 0 < outstanding (work wm ! i) then resolved_bm ok (work wm ! i)
      else work wm ! i)" ..
  with P res same Resolve show ?thesis by (simp del: step.simps)
next
  case (Reject j err)
  with P i rej same show ?thesis by (simp add: step_nth_Reject del: step.simps)
next
  case (CloseBM j)
  with P i clo same show ?thesis by (simp add: step_nth_CloseBM del: step.simps)
next
  case CloseWM
  with P i clo show ?thesis by (simp only: step_nth_CloseWM)
qed

lemma bm_ord_new: "bm_ord new_BatchManager"
  by (simp add: bm_ord_def new_BatchManager_def new_OffsetBatch_def new_Range_def empty_range_def)

lemma bm_ord_add:
  assumes "bm_inv bm" "bm_ord bm" "head (range_bm bm) \<le> Fin off"
  shows "bm_ord (fst (add_bm enc k v off bm)) \<and> range_le bm (fst (add_bm enc k v off bm))"
  using assms
  unfolding bm_inv_def bm_ord_def range_le_def add_bm_def requestSend_def sendPending_def
    Let_def empty_range_def isEmpty_def
  by (cases "offset (current bm)"; cases "closed bm"; cases "head (range_bm bm)";
      cases "tail (range_bm bm)"; simp split: option.splits)

lemma bm_ord_resolved:
  assumes "bm_inv bm" "bm_ord bm" "0 < outstanding bm"
  shows "bm_ord (resolved_bm ok bm) \<and> range_le bm (resolved_bm ok bm)"
  using assms
  unfolding bm_inv_def bm_ord_def range_le_def resolved_bm_def clear_and_continue_def
    set_tail_def settle_def sendPending_def clear_def Let_def isEmpty_def empty_range_def
  by (cases "offset (current bm)"; cases "offset (pending bm)"; cases "closed bm"; cases ok;
      cases "head (range_bm bm)"; simp)

lemma bm_ord_settle: "bm_ord bm \<Longrightarrow> bm_ord (settle bm) \<and> range_le bm (settle bm)"
  by (simp add: bm_ord_def settle_def range_le_def split: option.splits)

lemma bm_ord_close: "bm_ord bm \<Longrightarrow> bm_ord (close_bm bm) \<and> range_le bm (close_bm bm)"
  by (simp add: bm_ord_def close_bm_def range_le_def split: option.splits)

lemma added_append:
  "added enc wm (xs @ ys) i = added enc wm xs i @ added enc (exec enc wm xs) ys i"
  by (induction xs arbitrary: wm) auto


lemma added_snoc:
  "added enc wm (evs @ [e]) i = added enc wm evs i @ added_by (exec enc wm evs) e i"
  by (simp add: added_append)


lemma head_add: "head (range_bm (fst (add_bm enc k v off bm))) = Fin off"
  by (simp add: add_bm_def requestSend_def sendPending_def Let_def)

lemma head_resolved: "head (range_bm (resolved_bm ok bm)) = head (range_bm bm)"
  by (simp add: resolved_bm_def clear_and_continue_def sendPending_def set_tail_def settle_def
        Let_def split: option.splits)

lemma step_head:
  assumes i: "i < length (work wm)"
  shows "head (range_bm (work (fst (step enc wm e)) ! i)) =
           (if added_by wm e i = [] then head (range_bm (work wm ! i))
            else Fin (snd (last (added_by wm e i))))"
proof (cases "\<exists>k v off. e = Add i k v off")
  case True
  then obtain k v off where e: "e = Add i k v off" by blast
  with i show ?thesis by (simp add: step_nth_Add head_add del: step.simps)
next
  case False
  then have a: "added_by wm e i = []" by (cases e) auto
  have "head (range_bm (work (fst (step enc wm e)) ! i)) = head (range_bm (work wm ! i))"
    by (rule step_relates [where P = "\<lambda>_. True" and G = "\<lambda>_ _. False"
          and R = "\<lambda>a b. head (range_bm b) = head (range_bm a)"])
       (use False i in \<open>auto simp: head_resolved settle_def close_bm_def\<close>)
  with a show ?thesis by simp
qed

lemma reach_head:
  "(i < length (work (exec enc new_WorkManager evs)) \<longrightarrow>
      head (range_bm (work (exec enc new_WorkManager evs) ! i)) =
        (if added enc new_WorkManager evs i = [] then NegInf
         else Fin (snd (last (added enc new_WorkManager evs i))))) \<and>
   (\<not> i < length (work (exec enc new_WorkManager evs)) \<longrightarrow>
      added enc new_WorkManager evs i = [])"
proof (induction evs rule: rev_induct)
  case Nil
  show ?case by (simp add: new_WorkManager_def)
next
  case (snoc e evs)
  let ?wm = "exec enc new_WorkManager evs"
  let ?A = "added enc new_WorkManager evs i"
  show ?case
  proof (cases "i < length (work ?wm)")
    case True
    with step_length [of ?wm enc e] have l: "i < length (work (fst (step enc ?wm e)))" by simp
    from snoc True have h: "head (range_bm (work ?wm ! i)) =
        (if ?A = [] then NegInf else Fin (snd (last ?A)))" by simp
    from step_head [OF True, of enc e] h l show ?thesis
      unfolding exec_snoc added_snoc by simp
  next
    case False
    with snoc have a: "?A = []" by simp
    from False have b: "added_by ?wm e i = []" by (cases e) auto
    show ?thesis
    proof (cases "i < length (work (fst (step enc ?wm e)))")
      case l: True
      from step_new_manager [OF False l]
      have "work (fst (step enc ?wm e)) ! i = new_BatchManager" ..
      with a b l show ?thesis unfolding exec_snoc added_snoc
        by (simp add: new_BatchManager_def new_Range_def)
    next
      case l: False
      with a b show ?thesis unfolding exec_snoc added_snoc by simp
    qed
  qed
qed

lemma guard_from_sorted:
  assumes "sorted (map snd (added enc new_WorkManager (evs @ [Add i k v off]) i))"
    and "i < length (work (exec enc new_WorkManager evs))"
  shows "head (range_bm (work (exec enc new_WorkManager evs) ! i)) \<le> Fin off"
proof -
  let ?A = "added enc new_WorkManager evs i"
  from assms have s: "sorted (map snd ?A @ [off])" by (simp add: added_snoc)
  from reach_head [of i enc evs] assms(2)
  have h: "head (range_bm (work (exec enc new_WorkManager evs) ! i)) =
        (if ?A = [] then NegInf else Fin (snd (last ?A)))" by simp
  show ?thesis
  proof (cases "?A = []")
    case True
    with h show ?thesis by simp
  next
    case False
    then have "snd (last ?A) \<in> set (map snd ?A)" by simp
    with s have "snd (last ?A) \<le> off" by (simp add: sorted_append del: set_map)
    with h False show ?thesis by simp
  qed
qed

lemma range_le_refl: "range_le bm bm"
  by (simp add: range_le_def)

lemma step_ord:
  assumes i: "i < length (work wm)" and inv: "bm_inv (work wm ! i)" and ord: "bm_ord (work wm ! i)"
    and g: "\<And>k v off. e = Add i k v off \<Longrightarrow> head (range_bm (work wm ! i)) \<le> Fin off"
  shows "bm_ord (work (fst (step enc wm e)) ! i) \<and>
         range_le (work wm ! i) (work (fst (step enc wm e)) ! i)"
  by (rule step_relates [where P = "\<lambda>b. bm_inv b \<and> bm_ord b"
        and G = "\<lambda>off b. head (range_bm b) \<le> Fin off"
        and R = "\<lambda>a b. bm_ord b \<and> range_le a b"])
     (use i inv ord g in \<open>auto simp: bm_ord_add bm_ord_resolved bm_ord_settle bm_ord_close
         range_le_refl\<close>)

lemma sorted_added_prefix:
  "sorted (map snd (added enc wm (xs @ ys) i)) \<Longrightarrow> sorted (map snd (added enc wm xs i))"
  by (simp add: added_append sorted_append)

lemma reach_ord:
  "sorted (map snd (added enc new_WorkManager evs i)) \<Longrightarrow>
   i < length (work (exec enc new_WorkManager evs)) \<Longrightarrow>
   bm_ord (work (exec enc new_WorkManager evs) ! i)"
proof (induction evs rule: rev_induct)
  case Nil
  then show ?case by (simp add: new_WorkManager_def)
next
  case (snoc e evs)
  let ?wm = "exec enc new_WorkManager evs"
  show ?case
  proof (cases "i < length (work ?wm)")
    case False
    from snoc.prems(2) have "i < length (work (fst (step enc ?wm e)))" by (simp only: exec_snoc)
    from step_new_manager [OF False this]
    have "work (fst (step enc ?wm e)) ! i = new_BatchManager" ..
    then show ?thesis unfolding exec_snoc by (simp only: bm_ord_new)
  next
    case True
    from sorted_added_prefix [OF snoc.prems(1)] have "sorted (map snd (added enc new_WorkManager evs i))" .
    from snoc.IH [OF this True] have ord: "bm_ord (work ?wm ! i)" .
    from reach_bm_inv True have inv: "bm_inv (work ?wm ! i)" by blast
    have g: "head (range_bm (work ?wm ! i)) \<le> Fin off" if "e = Add i k v off" for k v off
      using guard_from_sorted [of enc evs i k v off] snoc.prems(1) True that by simp
    from step_ord [where enc = enc and e = e, OF True inv ord g] show ?thesis unfolding exec_snoc by simp
  qed
qed

lemma run_range_le:
  "sorted (map snd (added enc new_WorkManager (pre @ post) i)) \<Longrightarrow>
   i < length (work (exec enc new_WorkManager pre)) \<Longrightarrow>
   i < length (work (exec enc new_WorkManager (pre @ post))) \<and>
   range_le (work (exec enc new_WorkManager pre) ! i)
            (work (exec enc new_WorkManager (pre @ post)) ! i)"
proof (induction post rule: rev_induct)
  case Nil
  then show ?case by (simp add: range_le_def)
next
  case (snoc e post)
  let ?wm = "exec enc new_WorkManager (pre @ post)"
  from snoc.prems(1) have s: "sorted (map snd (added enc new_WorkManager ((pre @ post) @ [e]) i))"
    by simp
  from sorted_added_prefix [OF s] have sp: "sorted (map snd (added enc new_WorkManager (pre @ post) i))" .
  from snoc.IH [OF sp snoc.prems(2)] have l: "i < length (work ?wm)"
    and r: "range_le (work (exec enc new_WorkManager pre) ! i) (work ?wm ! i)" by simp_all
  from reach_bm_inv l have inv: "bm_inv (work ?wm ! i)" by blast
  from reach_ord [OF sp l] have ord: "bm_ord (work ?wm ! i)" .
  have g: "head (range_bm (work ?wm ! i)) \<le> Fin off" if "e = Add i k v off" for k v off
    using guard_from_sorted [of enc "pre @ post" i k v off] s l that by simp
  from step_ord [where enc = enc and e = e, OF l inv ord g]
  have r2: "range_le (work ?wm ! i) (work (fst (step enc ?wm e)) ! i)" by simp
  from l step_length [of ?wm enc e] have l2: "i < length (work (fst (step enc ?wm e)))" by simp
  have e: "exec enc new_WorkManager (pre @ post @ [e]) = fst (step enc ?wm e)"
    by (simp add: exec_append)
  from r r2 l2 show ?case unfolding e by (auto simp: range_le_def)
qed

text \<open>
  C10. When the offsets passed to \<open>add\<close> of manager \<open>i\<close> never decrease, then from any
  point of a run to any later point the head and the tail of its range do not
  decrease, the tail is at most the head whenever the range is non-empty, and once a
  message has been added the range is never empty again.
\<close>

theorem range_monotonic:
  assumes "sorted (map snd (added enc new_WorkManager (pre @ post) i))"
    and "i < length (work (exec enc new_WorkManager pre))"
  shows "head (range_bm (work (exec enc new_WorkManager pre) ! i))
           \<le> head (range_bm (work (exec enc new_WorkManager (pre @ post)) ! i)) \<and>
         tail (range_bm (work (exec enc new_WorkManager pre) ! i))
           \<le> tail (range_bm (work (exec enc new_WorkManager (pre @ post)) ! i)) \<and>
         (\<not> empty_range (range_bm (work (exec enc new_WorkManager (pre @ post)) ! i)) \<longrightarrow>
            tail (range_bm (work (exec enc new_WorkManager (pre @ post)) ! i))
              \<le> head (range_bm (work (exec enc new_WorkManager (pre @ post)) ! i))) \<and>
         (added enc new_WorkManager pre i \<noteq> [] \<longrightarrow>
            \<not> empty_range (range_bm (work (exec enc new_WorkManager (pre @ post)) ! i)))"
proof -
  let ?a = "work (exec enc new_WorkManager pre) ! i"
  let ?b = "work (exec enc new_WorkManager (pre @ post)) ! i"
  from run_range_le [OF assms] have l: "i < length (work (exec enc new_WorkManager (pre @ post)))"
    and r: "range_le ?a ?b" by simp_all
  from reach_ord [OF assms(1) l] have o: "bm_ord ?b" .
  from reach_head [of i enc pre] assms(2)
  have "added enc new_WorkManager pre i \<noteq> [] \<longrightarrow> \<not> empty_range (range_bm ?a)"
    by (auto simp: empty_range_def)
  moreover from r have "\<not> empty_range (range_bm ?a) \<longrightarrow> \<not> empty_range (range_bm ?b)"
    by (cases "head (range_bm ?a)"; cases "head (range_bm ?b)")
       (auto simp: range_le_def empty_range_def)
  ultimately show ?thesis using r o by (auto simp: range_le_def bm_ord_def)
qed

theorem range_monotonic_witness:
  "sorted (map snd (added (\<lambda>k. k) new_WorkManager
      ([Create, Add 0 ''k'' ''a'' 5] @ [Add 0 ''k'' ''b'' 7, Resolve 0, Resolve 0]) 0)) \<and>
   0 < length (work (exec (\<lambda>k. k) new_WorkManager [Create, Add 0 ''k'' ''a'' 5])) \<and>
   added (\<lambda>k. k) new_WorkManager [Create, Add 0 ''k'' ''a'' 5] 0 = [(''a'', 5)] \<and>
   head (range_bm (work (exec (\<lambda>k. k) new_WorkManager [Create, Add 0 ''k'' ''a'' 5]) ! 0))
     \<le> head (range_bm (work (exec (\<lambda>k. k) new_WorkManager
          ([Create, Add 0 ''k'' ''a'' 5] @ [Add 0 ''k'' ''b'' 7, Resolve 0, Resolve 0])) ! 0)) \<and>
   tail (range_bm (work (exec (\<lambda>k. k) new_WorkManager [Create, Add 0 ''k'' ''a'' 5]) ! 0))
     \<le> tail (range_bm (work (exec (\<lambda>k. k) new_WorkManager
          ([Create, Add 0 ''k'' ''a'' 5] @ [Add 0 ''k'' ''b'' 7, Resolve 0, Resolve 0])) ! 0)) \<and>
   \<not> empty_range (range_bm (work (exec (\<lambda>k. k) new_WorkManager
          ([Create, Add 0 ''k'' ''a'' 5] @ [Add 0 ''k'' ''b'' 7, Resolve 0, Resolve 0])) ! 0)) \<and>
   tail (range_bm (work (exec (\<lambda>k. k) new_WorkManager
          ([Create, Add 0 ''k'' ''a'' 5] @ [Add 0 ''k'' ''b'' 7, Resolve 0, Resolve 0])) ! 0))
     \<le> head (range_bm (work (exec (\<lambda>k. k) new_WorkManager
          ([Create, Add 0 ''k'' ''a'' 5] @ [Add 0 ''k'' ''b'' 7, Resolve 0, Resolve 0])) ! 0))"
proof -
  let ?pre = "[Create, Add 0 ''k'' ''a'' (5::int)]"
  let ?post = "[Add 0 ''k'' ''b'' (7::int), Resolve 0, Resolve 0]"
  have s: "sorted (map snd (added (\<lambda>k. k) new_WorkManager (?pre @ ?post) 0))"
    by code_simp
  have l: "0 < length (work (exec (\<lambda>k. k) new_WorkManager ?pre))"
    by code_simp
  have a: "added (\<lambda>k. k) new_WorkManager ?pre 0 = [(''a'', 5)]"
    by code_simp
  then have a': "added (\<lambda>k. k) new_WorkManager ?pre 0 \<noteq> []"
    by (simp only: list.distinct not_False_eq_True)
  note m = range_monotonic [OF s l]
  from m a' have ne: "\<not> empty_range (range_bm (work (exec (\<lambda>k. k) new_WorkManager
          (?pre @ ?post)) ! 0))" by blast
  from m ne have th: "tail (range_bm (work (exec (\<lambda>k. k) new_WorkManager (?pre @ ?post)) ! 0))
     \<le> head (range_bm (work (exec (\<lambda>k. k) new_WorkManager (?pre @ ?post)) ! 0))" by blast
  from m have hh: "head (range_bm (work (exec (\<lambda>k. k) new_WorkManager ?pre) ! 0))
     \<le> head (range_bm (work (exec (\<lambda>k. k) new_WorkManager (?pre @ ?post)) ! 0))" by blast
  from m have tt: "tail (range_bm (work (exec (\<lambda>k. k) new_WorkManager ?pre) ! 0))
     \<le> tail (range_bm (work (exec (\<lambda>k. k) new_WorkManager (?pre @ ?post)) ! 0))" by blast
  from s l a hh tt ne th show ?thesis by blast
qed

section \<open>Properties: checkpoint safety\<close>

lemma ledger_more_delivered: "ledger_ok bm A D \<Longrightarrow> ledger_ok bm A (D @ D')"
  by (fastforce simp: ledger_ok_def)



lemma ledger_new: "ledger_ok new_BatchManager [] []"
  by (simp add: ledger_ok_def)














section \<open>Properties: the offset when nothing is left to send\<close>

lemma le_NegInf [simp]: "x \<le> NegInf \<longleftrightarrow> x = NegInf"
  by (cases x) simp_all








lemma derived_offset_all_empty:
  assumes "\<forall>w \<in> set (work wm). empty_range (range_bm w)"
  shows "derived_offset wm = lastOffset wm"
proof -
  have a: "\<forall>w \<in> set ws. empty_range (range_bm w) \<Longrightarrow> empty_range r \<Longrightarrow>
     scan_work m r ws = (m, new_Range NegInf NegInf) \<or> (ws = [] \<and> scan_work m r ws = (m, r))"
    for ws :: "'a BatchManager list" and m r
  proof (induction ws arbitrary: m r)
    case Nil
    then show ?case by simp
  next
    case (Cons w ws)
    then have e: "empty_range (range_bm w)" by simp
    with Cons.prems have u: "union_range r (range_bm w) = new_Range NegInf NegInf"
      by (simp add: union_range_def)
    from e have m: "max m (head (range_bm w)) = m" by (simp add: empty_range_def max_def)
    have en: "empty_range (new_Range NegInf NegInf)" by (simp add: empty_range_def new_Range_def)
    from Cons.IH [of "new_Range NegInf NegInf" m] Cons.prems en
    show ?case by (auto simp: u m)
  qed
  have en: "empty_range (new_Range NegInf NegInf)" by (simp add: empty_range_def new_Range_def)
  from a [OF assms en, of "lastOffset wm"] en show ?thesis
    by (auto simp: derived_offset_def)
qed









section \<open>Properties: classification of messages\<close>







section \<open>Properties: mixed traffic\<close>

lemmas model_defs =
  new_ScriptoriumLambda_def delivered_step_def
  new_WorkManager_def createBatchedWork_def new_BatchManager_def new_Range_def
  new_OffsetBatch_def add_bm_def requestSend_def sendPending_def isEmpty_def empty_range_def
  add_batch_def on_rejected_def on_resolved_def settle_def set_tail_def clear_and_continue_def
  clear_def close_bm_def close_wm_def updateOffset_def derived_offset_def union_range_def
  Let_def









section \<open>Properties: burst coalescing\<close>

lemma push_all: "foldl (\<lambda>b v. push_work e v b) [(e, ws)] vs = [(e, ws @ vs)]"
  by (induction vs arbitrary: ws) auto

lemma burst_busy:
  assumes "offset cur \<noteq> None" "h \<noteq> NegInf"
  shows "exec enc \<lparr>work = [\<lparr>range_bm = \<lparr>head = h, tail = t\<rparr>, pending = \<lparr>offset = p, batch = b\<rparr>,
                              current = cur, closed = c, outstanding = n\<rparr>, idle],
                    lastOffset = l\<rparr> (burst k vs off)
         = \<lparr>work = [\<lparr>range_bm = \<lparr>head = (if vs = [] then h else Fin (off + int (length vs) - 1)),
                                 tail = t\<rparr>,
                      pending = \<lparr>offset = (if vs = [] then p else Some (off + int (length vs) - 1)),
                                 batch = foldl (\<lambda>b v. push_work (enc k) v b) b vs\<rparr>,
                      current = cur, closed = c, outstanding = n\<rparr>, idle],
             lastOffset = l\<rparr> \<and>
         trace enc \<lparr>work = [\<lparr>range_bm = \<lparr>head = h, tail = t\<rparr>, pending = \<lparr>offset = p, batch = b\<rparr>,
                              current = cur, closed = c, outstanding = n\<rparr>, idle],
                    lastOffset = l\<rparr> (burst k vs off) = []"
  using assms
proof (induction vs arbitrary: h p b off)
  case Nil
  show ?case by simp
next
  case (Cons v vs)
  have s: "step enc \<lparr>work = [\<lparr>range_bm = \<lparr>head = h, tail = t\<rparr>, pending = \<lparr>offset = p, batch = b\<rparr>,
                              current = cur, closed = c, outstanding = n\<rparr>, idle],
                    lastOffset = l\<rparr> (Add 0 k v off)
      = (\<lparr>work = [\<lparr>range_bm = \<lparr>head = Fin off, tail = t\<rparr>,
                    pending = \<lparr>offset = Some off, batch = push_work (enc k) v b\<rparr>,
                    current = cur, closed = c, outstanding = n\<rparr>, idle],
           lastOffset = l\<rparr>, [])"
    using Cons.prems
    by (simp add: add_bm_def requestSend_def isEmpty_def empty_range_def add_batch_def Let_def)
  have f: "Fin off \<noteq> NegInf" by simp
  from Cons.IH [OF Cons.prems(1) f, of "Some off" "push_work (enc k) v b" "off + 1"]
  show ?case by (simp add: s del: step.simps) 
qed

text \<open>
  C4. Scenario B: the values at offsets 1 to 100 are added to the mongo manager under
  one key before its first send settles, and then the two sends resolve. The lambda
  calls \<open>processMongoBatch\<close> exactly twice, first with the value of offset 1 alone and
  then with the 99 others in order, and it calls \<open>context.checkpoint\<close> with 1 and then
  with 100.
\<close>

theorem burst_coalescing:
  assumes "length vs = 99"
  shows "concat (map deliver (trace enc new_ScriptoriumLambda
            (Add 0 key v 1 # burst key vs 2 @ [Resolve 0, Resolve 0])))
         = [ProcessMongoBatch [(enc key, [v])], Checkpoint (Fin 1),
            ProcessMongoBatch [(enc key, vs)], Checkpoint (Fin 100)]"
proof -
  from assms have ne: "vs \<noteq> []" by auto
  let ?s1 = "\<lparr>work = [\<lparr>range_bm = \<lparr>head = Fin 1, tail = Fin 0\<rparr>,
                        pending = \<lparr>offset = None, batch = []\<rparr>,
                        current = \<lparr>offset = Some 1, batch = [(enc key, [v])]\<rparr>,
                        closed = False, outstanding = Suc 0\<rparr>, new_BatchManager],
                lastOffset = NegInf\<rparr>"
  have a: "step enc new_ScriptoriumLambda (Add 0 key v 1) = (?s1, [SendFn 0 [(enc key, [v])]])"
    by (simp add: model_defs)
  have "foldl (\<lambda>b v. push_work (enc key) v b) [] vs = [(enc key, vs)]"
    using ne push_all [of "enc key" "[hd vs]" "tl vs"] by (cases vs) simp_all
  with burst_busy [of "\<lparr>offset = Some 1, batch = [(enc key, [v])]\<rparr>" "Fin 1" enc "Fin 0" None "[]"
        False "Suc 0" new_BatchManager NegInf key vs 2] ne assms
  have b: "exec enc ?s1 (burst key vs 2)
         = \<lparr>work = [\<lparr>range_bm = \<lparr>head = Fin 100, tail = Fin 0\<rparr>,
                      pending = \<lparr>offset = Some 100, batch = [(enc key, vs)]\<rparr>,
                      current = \<lparr>offset = Some 1, batch = [(enc key, [v])]\<rparr>,
                      closed = False, outstanding = Suc 0\<rparr>, new_BatchManager],
             lastOffset = NegInf\<rparr>"
    and c: "trace enc ?s1 (burst key vs 2) = []" by simp_all
  show ?thesis
    by (simp add: a trace_append b c del: step.simps) (simp add: model_defs)
qed

theorem burst_coalescing_witness:
  "length (replicate 99 (JNum 7)) = 99 \<and>
   concat (map deliver (trace (\<lambda>k. ''T/D'') new_ScriptoriumLambda
      (Add 0 None (JNum 0) 1 # burst None (replicate 99 (JNum 7)) 2 @ [Resolve 0, Resolve 0])))
     = [ProcessMongoBatch [(''T/D'', [JNum 0])], Checkpoint (Fin 1),
        ProcessMongoBatch [(''T/D'', replicate 99 (JNum 7))], Checkpoint (Fin 100)]"
proof -
  have l: "length (replicate 99 (JNum 7)) = 99" by simp
  from burst_coalescing [OF l, of "\<lambda>k. ''T/D''" None "JNum 0"] l show ?thesis by blast
qed

section \<open>Properties: the sender of the mongo manager\<close>

lemma promise_all_None: "promise_all ps = None \<longleftrightarrow> (\<forall>p \<in> set ps. p = None)"
  by (induction ps rule: promise_all.induct) auto

lemma promise_all_Some: "promise_all ps = Some err \<Longrightarrow> Some err \<in> set ps"
  by (induction ps rule: promise_all.induct) auto

lemma swallow_None:
  "swallow_duplicate outcome = None \<longleftrightarrow> (\<forall>err. outcome = Some err \<longrightarrow> duplicate_key err)"
  by (cases outcome) (auto simp: swallow_duplicate_def duplicate_key_def)

lemma swallow_Some:
  "swallow_duplicate outcome = Some err \<Longrightarrow> outcome = Some err \<and> \<not> duplicate_key err"
  by (cases outcome) (auto simp: swallow_duplicate_def duplicate_key_def split: if_splits)

lemma updateSequenceNumber_None:
  "updateSequenceNumber store messages = None
     \<longleftrightarrow> list_all duplicate_key (update_errors store messages)"
proof (cases "contentCollection store")
  case None
  then show ?thesis by (simp add: updateSequenceNumber_def update_errors_def)
next
  case (Some update)
  let ?ps = "map (\<lambda>message. swallow_duplicate (update (update_filter message) (update_set message)))
                 (filter wants_split messages)"
  have "updateSequenceNumber store messages = promise_all ?ps"
    using Some by (cases "filter wants_split messages") (simp_all add: updateSequenceNumber_def)
  also have "\<dots> = None \<longleftrightarrow> list_all duplicate_key (update_errors store messages)"
    unfolding promise_all_None update_errors_def Some
    by (auto simp: list_all_iff swallow_None split: option.splits)
  finally show ?thesis .
qed

lemma updateSequenceNumber_Some:
  assumes "updateSequenceNumber store messages = Some err"
  shows "err \<in> set (update_errors store messages) \<and> \<not> duplicate_key err"
proof (cases "contentCollection store")
  case None
  with assms show ?thesis by (simp add: updateSequenceNumber_def)
next
  case (Some update)
  let ?ps = "map (\<lambda>message. swallow_duplicate (update (update_filter message) (update_set message)))
                 (filter wants_split messages)"
  have "updateSequenceNumber store messages = promise_all ?ps"
    using Some by (cases "filter wants_split messages") (simp_all add: updateSequenceNumber_def)
  with assms have "promise_all ?ps = Some err" by simp
  then have "Some err \<in> set ?ps" by (rule promise_all_Some)
  then obtain m where m: "m \<in> set (filter wants_split messages)"
    and s: "swallow_duplicate (update (update_filter m) (update_set m)) = Some err" by auto
  from swallow_Some [OF s] m Some show ?thesis
    by (auto simp: update_errors_def intro!: bexI [of _ m])
qed

lemma processMongoCore_None:
  "processMongoCore store messages = None
     \<longleftrightarrow> list_all duplicate_key (group_errors store messages)"
  by (auto simp: processMongoCore_def promise_all_None insertOp_def swallow_None
        updateSequenceNumber_None group_errors_def split: option.splits)

lemma processMongoCore_Some:
  assumes "processMongoCore store messages = Some err"
  shows "err \<in> set (group_errors store messages) \<and> \<not> duplicate_key err"
proof -
  from promise_all_Some [OF assms [unfolded processMongoCore_def]]
  have "insertOp store messages = Some err \<or> updateSequenceNumber store messages = Some err"
    by auto
  then show ?thesis
  proof
    assume "insertOp store messages = Some err"
    from swallow_Some [OF this [unfolded insertOp_def]] show ?thesis
      by (simp add: group_errors_def)
  next
    assume "updateSequenceNumber store messages = Some err"
    from updateSequenceNumber_Some [OF this] show ?thesis by (simp add: group_errors_def)
  qed
qed

lemma processMongoBatch_None:
  "processMongoBatch store b = None
     \<longleftrightarrow> list_all (\<lambda>group. processMongoCore store (snd group) = None) b"
  by (auto simp: processMongoBatch_def promise_all_None list_all_iff split_beta)

lemma processMongoBatch_Some:
  assumes "processMongoBatch store b = Some err"
  shows "\<exists>group \<in> set b. processMongoCore store (snd group) = Some err"
proof -
  from promise_all_Some [OF assms [unfolded processMongoBatch_def]]
  obtain group where "group \<in> set b" "Some err = processMongoCore store (snd group)"
    by (auto simp: split_beta)
  then show ?thesis by (intro bexI [of _ group]) simp_all
qed

text \<open>
  C7. A group resolves exactly when every error the storage reports for it (from
  \<open>insertMany\<close> or from an \<open>update\<close>) is a duplicate-key error, that is, has name
  \<open>MongoError\<close> and code 11000; when it rejects, it rejects with one of the reported
  errors, and that error is not a duplicate-key error. A batch resolves exactly when
  all its groups do and otherwise rejects with the error of a group. When the batch in
  flight resolves, the lambda runs the continuation of the send; when it rejects with
  \<open>err\<close>, the lambda logs it and calls \<open>context.error(err, true)\<close>, and the manager
  keeps \<open>current\<close> and its range.
\<close>

theorem duplicate_key_swallowed:
  "(processMongoCore store messages = None
      \<longleftrightarrow> list_all duplicate_key (group_errors store messages)) \<and>
   (\<forall>err. processMongoCore store messages = Some err \<longrightarrow>
      err \<in> set (group_errors store messages) \<and> \<not> duplicate_key err) \<and>
   (processMongoBatch store b = None
      \<longleftrightarrow> list_all (\<lambda>group. processMongoCore store (snd group) = None) b) \<and>
   (\<forall>err. processMongoBatch store b = Some err \<longrightarrow>
      (\<exists>group \<in> set b. processMongoCore store (snd group) = Some err)) \<and>
   (0 < length (work wm) \<longrightarrow> 0 < outstanding (work wm ! 0) \<longrightarrow>
      processMongoBatch store (batch (current (work wm ! 0))) = None \<longrightarrow>
      lam_step ext wm (MongoSettled store)
        = delivered_step (step (stringify_key ext) wm (Resolve 0))) \<and>
   (\<forall>err. 0 < length (work wm) \<longrightarrow> 0 < outstanding (work wm ! 0) \<longrightarrow>
      processMongoBatch store (batch (current (work wm ! 0))) = Some err \<longrightarrow>
      lam_step ext wm (MongoSettled store)
        = (wm\<lparr>work := (work wm)[0 := settle (work wm ! 0)]\<rparr>,
           [WinstonError (BatchError err), ContextError err True]))"
proof -
  have 5: "0 < length (work wm) \<longrightarrow> 0 < outstanding (work wm ! 0) \<longrightarrow>
      processMongoBatch store (batch (current (work wm ! 0))) = None \<longrightarrow>
      lam_step ext wm (MongoSettled store)
        = delivered_step (step (stringify_key ext) wm (Resolve 0))"
    by (simp del: step.simps)
  have 6: "\<forall>err. 0 < length (work wm) \<longrightarrow> 0 < outstanding (work wm ! 0) \<longrightarrow>
      processMongoBatch store (batch (current (work wm ! 0))) = Some err \<longrightarrow>
      lam_step ext wm (MongoSettled store)
        = (wm\<lparr>work := (work wm)[0 := settle (work wm ! 0)]\<rparr>,
           [WinstonError (BatchError err), ContextError err True])"
    by (simp add: on_rejected_def delivered_step_def)
  from processMongoCore_None [of store messages] processMongoCore_Some [of store messages]
    processMongoBatch_None [of store b] processMongoBatch_Some [of store b] 5 6
  show ?thesis by blast
qed

theorem duplicate_key_swallowed_witness:
  "group_errors \<lparr> insertMany = (\<lambda>ms. Some (StoreError ''MongoError'' 11000)),
                  contentCollection = None \<rparr> [JNull] = [StoreError ''MongoError'' 11000] \<and>
   processMongoCore \<lparr> insertMany = (\<lambda>ms. Some (StoreError ''MongoError'' 11000)),
                      contentCollection = None \<rparr> [JNull] = None \<and>
   group_errors \<lparr> insertMany = (\<lambda>ms. Some (StoreError ''MongoNetworkError'' 0)),
                  contentCollection = None \<rparr> [JNull] = [StoreError ''MongoNetworkError'' 0] \<and>
   processMongoCore \<lparr> insertMany = (\<lambda>ms. Some (StoreError ''MongoNetworkError'' 0)),
                      contentCollection = None \<rparr> [JNull]
     = Some (StoreError ''MongoNetworkError'' 0) \<and>
   \<not> duplicate_key (StoreError ''MongoNetworkError'' 0)"
proof -
  let ?dup = "\<lparr> insertMany = (\<lambda>ms. Some (StoreError ''MongoError'' 11000)),
                contentCollection = None \<rparr>"
  let ?bad = "\<lparr> insertMany = (\<lambda>ms. Some (StoreError ''MongoNetworkError'' 0)),
                contentCollection = None \<rparr>"
  have g1: "group_errors ?dup [JNull] = [StoreError ''MongoError'' 11000]"
    and g2: "group_errors ?bad [JNull] = [StoreError ''MongoNetworkError'' 0]"
    by (simp_all add: group_errors_def update_errors_def)
  have d: "list_all duplicate_key (group_errors ?dup [JNull])"
    unfolding g1 by (simp add: duplicate_key_def)
  have b: "processMongoCore ?bad [JNull] = Some (StoreError ''MongoNetworkError'' 0)"
    by (simp add: processMongoCore_def insertOp_def swallow_duplicate_def
          updateSequenceNumber_def)
  from duplicate_key_swallowed [of ?dup "[JNull]"] d
  have c1: "processMongoCore ?dup [JNull] = None" by blast
  from duplicate_key_swallowed [of ?bad "[JNull]"] b
  have c2: "\<not> duplicate_key (StoreError ''MongoNetworkError'' 0)" by blast
  from g1 c1 g2 b c2 show ?thesis by blast
qed

end
